theory Spec2Isabelle
  imports Main "HOL-Library.Word" "HOL-Library.AList" "HOL-Library.Multiset"
begin

section \<open>Label filters: bool-kind fields (package filters)\<close>

text \<open>
  \<^verbatim>\<open>Int64BoolField.SQLValue\<close> and \<^verbatim>\<open>BooleanField.SQLValue\<close> project the raw JSON of an
  indexed label to the value bound into SQL. Both decode the bytes with
  \<^verbatim>\<open>json.Unmarshal\<close> into an untyped \<^verbatim>\<open>interface{}\<close>, whose dynamic type is one of
  nil, bool, float64, string, slice or map.
\<close>

datatype JSONValue =
    JNull
  | JBool bool
  | JNumber string
  | JString string
  | JArray "JSONValue list"
  | JObject "(string \<times> JSONValue) list"

text \<open>\<^verbatim>\<open>driver.Value\<close>, as far as these two fields produce it: nil, bool or int64.\<close>

datatype driver_Value = SQLNull | SQLBool bool | SQLInt64 "64 word"

datatype filters_error =
    UnmarshalError string
  | MsgFiltersValueInvalidForBool string

text \<open>
  \<^verbatim>\<open>strings.EqualFold\<close> compares under simple Unicode case folding. The only
  characters that fold to the letters of \<^verbatim>\<open>"true"\<close> are their ASCII upper-case forms,
  so on the byte strings used here the folding is the ASCII one.
\<close>

definition foldCase :: "char \<Rightarrow> char" where
  "foldCase c =
     (case map_of (zip ''ABCDEFGHIJKLMNOPQRSTUVWXYZ'' ''abcdefghijklmnopqrstuvwxyz'') c of
        Some l \<Rightarrow> l
      | None \<Rightarrow> c)"

definition EqualFold :: "string \<Rightarrow> string \<Rightarrow> bool" where
  "EqualFold s t = (map foldCase s = map foldCase t)"

text \<open>
  \<^verbatim>\<open>RawJSON.IsNil\<close> (package pldtypes) and \<^verbatim>\<open>json.Unmarshal\<close> are not part of the
  sources at hand: both are parameters of the model, applied to the raw bytes.
\<close>

definition Int64BoolField_SQLValue ::
  "(string \<Rightarrow> bool) \<Rightarrow> (string \<Rightarrow> string + JSONValue) \<Rightarrow> string \<Rightarrow> filters_error + driver_Value"
where
  "Int64BoolField_SQLValue IsNil Unmarshal jsonValue =
     (if IsNil jsonValue then Inr SQLNull
      else case Unmarshal jsonValue of
        Inl err \<Rightarrow> Inl (UnmarshalError err)
      | Inr untyped \<Rightarrow>
          (case untyped of
             JString v \<Rightarrow> if EqualFold v ''true'' then Inr (SQLInt64 1) else Inr (SQLInt64 0)
           | JBool v \<Rightarrow> if v then Inr (SQLInt64 1) else Inr (SQLInt64 0)
           | _ \<Rightarrow> Inl (MsgFiltersValueInvalidForBool jsonValue)))"

definition BooleanField_SQLValue ::
  "(string \<Rightarrow> bool) \<Rightarrow> (string \<Rightarrow> string + JSONValue) \<Rightarrow> string \<Rightarrow> filters_error + driver_Value"
where
  "BooleanField_SQLValue IsNil Unmarshal jsonValue =
     (if IsNil jsonValue then Inr SQLNull
      else case Unmarshal jsonValue of
        Inl err \<Rightarrow> Inl (UnmarshalError err)
      | Inr untyped \<Rightarrow>
          (case untyped of
             JString v \<Rightarrow> if EqualFold v ''true'' then Inr (SQLBool True) else Inr (SQLBool False)
           | JBool v \<Rightarrow> Inr (SQLBool v)
           | _ \<Rightarrow> Inl (MsgFiltersValueInvalidForBool jsonValue)))"

text \<open>
  What the callers rely on from \<^verbatim>\<open>IsNil\<close>: among the byte strings that decode, it
  holds exactly for those that decode to JSON null.
\<close>

definition IsNil_recognises_null ::
  "(string \<Rightarrow> bool) \<Rightarrow> (string \<Rightarrow> string + JSONValue) \<Rightarrow> bool"
where
  "IsNil_recognises_null IsNil Unmarshal =
     (\<forall>j v. Unmarshal j = Inr v \<longrightarrow> (IsNil j \<longleftrightarrow> v = JNull))"

text \<open>The bool a JSON value of a bool-kind label stands for, if any.\<close>

fun boolOfJSON :: "JSONValue \<Rightarrow> bool option" where
  "boolOfJSON (JBool b) = Some b"
| "boolOfJSON (JString s) = Some (EqualFold s ''true'')"
| "boolOfJSON _ = None"

definition int64OfBool :: "bool \<Rightarrow> 64 word" where
  "int64OfBool b = (if b then 1 else 0)"

definition sample_IsNil :: "string \<Rightarrow> bool" where
  "sample_IsNil j = (j = [] \<or> j = ''null'')"

definition sample_Unmarshal :: "string \<Rightarrow> string + JSONValue" where
  "sample_Unmarshal j =
     (if j = ''null'' then Inr JNull
      else if j = ''true'' then Inr (JBool True)
      else if j = ''false'' then Inr (JBool False)
      else if j = ''7'' then Inr (JNumber ''7'')
      else case j of
        c # cs \<Rightarrow> if c = CHR 0x22 \<and> cs \<noteq> [] \<and> last cs = CHR 0x22 \<and> CHR 0x22 \<notin> set (butlast cs)
                     \<and> CHR 0x5C \<notin> set cs
                  then Inr (JString (butlast cs)) else Inl ''invalid character''
      | [] \<Rightarrow> Inl ''unexpected end of JSON input'')"


section \<open>Zeto: selecting the input coins of a transfer (package zeto)\<close>

text \<open>
  \<^verbatim>\<open>Zeto.prepareInputs\<close> pages through the sender's available coins, oldest first,
  until their total covers the amounts to transfer. The state store is reached through
  the callback \<^verbatim>\<open>FindAvailableStates\<close>, and a coin is decoded from the state's JSON by
  \<^verbatim>\<open>makeCoin\<close> (\<^verbatim>\<open>json.Unmarshal\<close>): both are parameters of the model. Amounts are
  \<^verbatim>\<open>big.Int\<close>, the store timestamp is an int64.
\<close>

record StoredState =
  Id :: string
  SchemaId :: string
  StoredAt :: "64 word"
  DataJson :: string

record ZetoCoin =
  coin_Owner :: string
  coin_Amount :: int

record StateRef =
  ref_SchemaId :: string
  ref_Id :: string

record TransferParamEntry =
  param_To :: string
  param_Amount :: int

text \<open>
  The query built on each pass: limit 10, sorted on \<^verbatim>\<open>.created\<close>, owner equal to the
  sender, and created after the last state seen once there is one.
\<close>

record QueryBuilder =
  qb_Limit :: nat
  qb_Sort :: string
  qb_Equal_owner :: string
  qb_GreaterThan_created :: "64 word option"

definition buildQuery :: "string \<Rightarrow> 64 word \<Rightarrow> QueryBuilder" where
  "buildQuery sender lastStateTimestamp =
     \<lparr> qb_Limit = 10, qb_Sort = ''.created'', qb_Equal_owner = sender,
       qb_GreaterThan_created =
         (if 0 <s lastStateTimestamp then Some lastStateTimestamp else None) \<rparr>"

definition MAX_INPUT_COUNT :: nat where
  "MAX_INPUT_COUNT = 10"

text \<open>\<^verbatim>\<open>big.Int.Text(10)\<close>: the decimal digits, with a minus sign when negative.\<close>

fun digits10 :: "nat \<Rightarrow> string" where
  "digits10 n =
     (if n < 10 then [''0123456789'' ! n] else digits10 (n div 10) @ [''0123456789'' ! (n mod 10)])"

declare digits10.simps [simp del]

definition Text10 :: "int \<Rightarrow> string" where
  "Text10 i = (if i < 0 then CHR ''-'' # digits10 (nat (- i)) else digits10 (nat i))"

datatype ('r, 's) loop_step = Done 'r | Next 's

type_synonym prepared = "ZetoCoin list \<times> StateRef list \<times> int \<times> int"
type_synonym selection = "64 word \<times> int \<times> StateRef list \<times> ZetoCoin list"

text \<open>
  The inner loop over one page of states. The variables carried around the loops are
  \<^verbatim>\<open>lastStateTimestamp\<close>, \<^verbatim>\<open>total\<close> (here \<open>totalSum\<close>), \<^verbatim>\<open>stateRefs\<close> and \<^verbatim>\<open>coins\<close>. On success the
  source computes the remainder with \<^verbatim>\<open>total.Sub(total, expectedTotal)\<close>, which stores
  into \<^verbatim>\<open>total\<close>: the total and the remainder returned are the same number.
\<close>

fun processStates ::
  "(string \<Rightarrow> string + ZetoCoin) \<Rightarrow> int \<Rightarrow> StoredState list \<Rightarrow> selection
     \<Rightarrow> (string + prepared, selection) loop_step"
where
  "processStates makeCoin expectedTotal [] sel = Next sel"
| "processStates makeCoin expectedTotal (state # rest) (lastStateTimestamp, totalSum, stateRefs, coins) =
     (case makeCoin (DataJson state) of
        Inl err \<Rightarrow> Done (Inl (''coin '' @ Id state @ '' is invalid: '' @ err))
      | Inr coin \<Rightarrow>
          (let totalSum' = totalSum + coin_Amount coin;
               stateRefs' = stateRefs @ [\<lparr> ref_SchemaId = SchemaId state, ref_Id = Id state \<rparr>];
               coins' = coins @ [coin]
           in if expectedTotal \<le> totalSum'
              then Done (Inr (coins', stateRefs', totalSum' - expectedTotal, totalSum' - expectedTotal))
              else if MAX_INPUT_COUNT \<le> length stateRefs'
              then Done (Inl ''could not find enough coins to fulfill the transfer amount total'')
              else processStates makeCoin expectedTotal rest (StoredAt state, totalSum', stateRefs', coins')))"

lemma processStates_Next_length:
  "processStates makeCoin expectedTotal states (ts, totalSum, refs, coins) = Next (ts', totalSum', refs', coins')
   \<Longrightarrow> length refs' = length refs + length states
       \<and> (states \<noteq> [] \<longrightarrow> length refs' < MAX_INPUT_COUNT)"
proof (induction states arbitrary: ts totalSum refs coins)
  case Nil
  then show ?case by simp
next
  case (Cons state rest)
  from Cons.prems obtain coin where mk: "makeCoin (DataJson state) = Inr coin"
    by (cases "makeCoin (DataJson state)") auto
  let ?refs = "refs @ [\<lparr> ref_SchemaId = SchemaId state, ref_Id = Id state \<rparr>]"
  from Cons.prems mk have small: "length ?refs < MAX_INPUT_COUNT"
    by (auto simp add: Let_def split: if_splits)
  from Cons.prems mk have rec: "processStates makeCoin expectedTotal rest
                (StoredAt state, totalSum + coin_Amount coin, ?refs, coins @ [coin])
              = Next (ts', totalSum', refs', coins')"
    by (auto simp add: Let_def split: if_splits)
  have len: "length refs' = length ?refs + length rest"
    using Cons.IH [OF rec] by blast
  have lt: "rest \<noteq> [] \<longrightarrow> length refs' < MAX_INPUT_COUNT"
    using Cons.IH [OF rec] by blast
  show ?case
  proof (cases "rest = []")
    case True
    with len small show ?thesis by simp
  next
    case False
    with len lt show ?thesis by simp
  qed
qed

lemma processStates_Next_total:
  "processStates makeCoin expectedTotal states (ts, totalSum, refs, coins) = Next (ts', totalSum', refs', coins')
   \<Longrightarrow> totalSum = (\<Sum>c\<leftarrow>coins. coin_Amount c)
   \<Longrightarrow> totalSum' = (\<Sum>c\<leftarrow>coins'. coin_Amount c)"
proof (induction states arbitrary: ts totalSum refs coins)
  case Nil
  then show ?case by auto
next
  case (Cons state rest)
  from Cons.prems(1) obtain coin where mk: "makeCoin (DataJson state) = Inr coin"
    by (cases "makeCoin (DataJson state)") auto
  from Cons.prems(1) mk have rec: "processStates makeCoin expectedTotal rest
                (StoredAt state, totalSum + coin_Amount coin,
                 refs @ [\<lparr> ref_SchemaId = SchemaId state, ref_Id = Id state \<rparr>], coins @ [coin])
              = Next (ts', totalSum', refs', coins')"
    by (auto simp add: Let_def split: if_splits)
  have "totalSum + coin_Amount coin = (\<Sum>c\<leftarrow>coins @ [coin]. coin_Amount c)"
    using Cons.prems(2) by simp
  then show ?case
    by (rule Cons.IH [OF rec])
qed

function prepareInputs_loop ::
  "(nat \<Rightarrow> QueryBuilder \<Rightarrow> string + StoredState list) \<Rightarrow> (string \<Rightarrow> string + ZetoCoin)
     \<Rightarrow> string \<Rightarrow> int \<Rightarrow> nat \<Rightarrow> selection \<Rightarrow> string + prepared"
where
  "prepareInputs_loop findAvailableStates makeCoin sender expectedTotal n
       (lastStateTimestamp, totalSum, stateRefs, coins) =
     (case findAvailableStates n (buildQuery sender lastStateTimestamp) of
        Inl err \<Rightarrow> Inl (''failed to query the state store for available coins. '' @ err)
      | Inr states \<Rightarrow>
          if length states = 0
          then Inl (''insufficient funds (available='' @ Text10 totalSum @ '')'')
          else (case processStates makeCoin expectedTotal states
                       (lastStateTimestamp, totalSum, stateRefs, coins) of
                  Done r \<Rightarrow> r
                | Next sel \<Rightarrow>
                    prepareInputs_loop findAvailableStates makeCoin sender expectedTotal (Suc n) sel))"
  by pat_completeness auto
termination
proof (relation "measure (\<lambda>(f, mk, sender, e, n, ts, totalSum, refs, coins). MAX_INPUT_COUNT - length refs)")
  show "wf (measure (\<lambda>(f, mk, sender, e, n, ts, totalSum, refs, coins). MAX_INPUT_COUNT - length refs))"
    by simp
next
  fix findAvailableStates :: "nat \<Rightarrow> QueryBuilder \<Rightarrow> string + StoredState list"
    and makeCoin :: "string \<Rightarrow> string + ZetoCoin"
    and sender expectedTotal n lastStateTimestamp totalSum stateRefs coins states sel
  assume ne: "length states \<noteq> 0"
    and nx: "processStates makeCoin expectedTotal states (lastStateTimestamp, totalSum, stateRefs, coins)
             = Next sel"
  obtain ts' totalSum' refs' coins' where sel: "sel = (ts', totalSum', refs', coins')"
    by (cases sel) auto
  from processStates_Next_length [OF nx [unfolded sel]] ne
  have "length refs' = length stateRefs + length states" "length refs' < MAX_INPUT_COUNT"
    by auto
  then have "MAX_INPUT_COUNT - length refs' < MAX_INPUT_COUNT - length stateRefs"
    using ne by (cases states) auto
  then show "((findAvailableStates, makeCoin, sender, expectedTotal, Suc n, sel),
          (findAvailableStates, makeCoin, sender, expectedTotal, n,
           lastStateTimestamp, totalSum, stateRefs, coins))
         \<in> measure (\<lambda>(f, mk, sender, e, n, ts, totalSum, refs, coins). MAX_INPUT_COUNT - length refs)"
    by (simp add: sel)
qed

declare prepareInputs_loop.simps [simp del]

definition expectedTotalOf :: "TransferParamEntry list \<Rightarrow> int" where
  "expectedTotalOf params =
     fold (\<lambda>param expectedTotal. expectedTotal + param_Amount param) params 0"

definition prepareInputs ::
  "(nat \<Rightarrow> QueryBuilder \<Rightarrow> string + StoredState list) \<Rightarrow> (string \<Rightarrow> string + ZetoCoin)
     \<Rightarrow> string \<Rightarrow> TransferParamEntry list \<Rightarrow> string + prepared"
where
  "prepareInputs findAvailableStates makeCoin sender params =
     prepareInputs_loop findAvailableStates makeCoin sender (expectedTotalOf params) 0 (0, 0, [], [])"

text \<open>
  The selections the outer loop passes through, with the number of queries made before
  each: the initial one, and the one left by each page that neither covered the amount
  nor failed.
\<close>

inductive loop_reaches ::
  "(nat \<Rightarrow> QueryBuilder \<Rightarrow> string + StoredState list) \<Rightarrow> (string \<Rightarrow> string + ZetoCoin)
     \<Rightarrow> string \<Rightarrow> int \<Rightarrow> nat \<Rightarrow> selection \<Rightarrow> bool"
  for findAvailableStates makeCoin sender expectedTotal
where
  reaches_start: "loop_reaches findAvailableStates makeCoin sender expectedTotal 0 (0, 0, [], [])"
| reaches_page:
    "loop_reaches findAvailableStates makeCoin sender expectedTotal n (ts, totalSum, refs, coins)
     \<Longrightarrow> findAvailableStates n (buildQuery sender ts) = Inr states
     \<Longrightarrow> states \<noteq> []
     \<Longrightarrow> processStates makeCoin expectedTotal states (ts, totalSum, refs, coins) = Next sel
     \<Longrightarrow> loop_reaches findAvailableStates makeCoin sender expectedTotal (Suc n) sel"

subsection \<open>Properties of the bool-kind fields\<close>

lemma foldCase_true_letters:
  "foldCase c = CHR ''t'' \<longleftrightarrow> c = CHR ''t'' \<or> c = CHR ''T''"
  "foldCase c = CHR ''r'' \<longleftrightarrow> c = CHR ''r'' \<or> c = CHR ''R''"
  "foldCase c = CHR ''u'' \<longleftrightarrow> c = CHR ''u'' \<or> c = CHR ''U''"
  "foldCase c = CHR ''e'' \<longleftrightarrow> c = CHR ''e'' \<or> c = CHR ''E''"
  by (simp_all add: foldCase_def)

lemma map_eq_four:
  "map f s = [t, r, u, e] \<longleftrightarrow>
     (\<exists>a b c d. s = [a, b, c, d] \<and> f a = t \<and> f b = r \<and> f c = u \<and> f d = e)"
  by (cases s; simp; cases "tl s"; simp; cases "tl (tl s)"; simp; cases "tl (tl (tl s))"; simp; blast)

lemma EqualFold_true_iff:
  "EqualFold s ''true'' \<longleftrightarrow>
     (\<exists>a b c d. s = [a, b, c, d] \<and> (a = CHR ''t'' \<or> a = CHR ''T'') \<and> (b = CHR ''r'' \<or> b = CHR ''R'')
        \<and> (c = CHR ''u'' \<or> c = CHR ''U'') \<and> (d = CHR ''e'' \<or> d = CHR ''E''))"
proof -
  have lit: "map foldCase ''true'' = ''true''"
    by (simp add: foldCase_def)
  show ?thesis
    unfolding EqualFold_def lit map_eq_four foldCase_true_letters ..
qed

lemma sample_IsNil_ok: "IsNil_recognises_null sample_IsNil sample_Unmarshal"
  by (auto simp add: IsNil_recognises_null_def sample_IsNil_def sample_Unmarshal_def
      split: list.splits if_splits)

text \<open>
  Claim C10. For a bool-kind label, on raw JSON that decodes to the value \<open>v\<close>: JSON null
  gives SQL NULL; a JSON bool gives itself (1 or 0 for the int64-backed field); a JSON
  string gives true (1) exactly when it is one of the sixteen spellings of "true" in
  upper and lower case, and false (0) otherwise, never an error, so "yes" and "1" are
  false; an error comes back exactly for the remaining values (numbers, arrays,
  objects).
\<close>

theorem bool_field_SQLValue:
  assumes "IsNil_recognises_null IsNil Unmarshal" and "Unmarshal j = Inr v"
  shows "(v = JNull \<longrightarrow>
            BooleanField_SQLValue IsNil Unmarshal j = Inr SQLNull \<and>
            Int64BoolField_SQLValue IsNil Unmarshal j = Inr SQLNull)
       \<and> (\<forall>b. v = JBool b \<longrightarrow>
            BooleanField_SQLValue IsNil Unmarshal j = Inr (SQLBool b) \<and>
            Int64BoolField_SQLValue IsNil Unmarshal j = Inr (SQLInt64 (if b then 1 else 0)))
       \<and> (\<forall>s. v = JString s \<longrightarrow>
            BooleanField_SQLValue IsNil Unmarshal j = Inr (SQLBool (EqualFold s ''true'')) \<and>
            Int64BoolField_SQLValue IsNil Unmarshal j =
              Inr (SQLInt64 (if EqualFold s ''true'' then 1 else 0)))
       \<and> (\<forall>s. EqualFold s ''true'' \<longleftrightarrow>
            (\<exists>a b c d. s = [a, b, c, d] \<and> (a = CHR ''t'' \<or> a = CHR ''T'')
               \<and> (b = CHR ''r'' \<or> b = CHR ''R'') \<and> (c = CHR ''u'' \<or> c = CHR ''U'')
               \<and> (d = CHR ''e'' \<or> d = CHR ''E'')))
       \<and> \<not> EqualFold ''yes'' ''true'' \<and> \<not> EqualFold ''1'' ''true''
       \<and> ((\<exists>e. BooleanField_SQLValue IsNil Unmarshal j = Inl e) \<longleftrightarrow>
            v \<noteq> JNull \<and> (\<forall>b. v \<noteq> JBool b) \<and> (\<forall>s. v \<noteq> JString s))
       \<and> ((\<exists>e. Int64BoolField_SQLValue IsNil Unmarshal j = Inl e) \<longleftrightarrow>
            v \<noteq> JNull \<and> (\<forall>b. v \<noteq> JBool b) \<and> (\<forall>s. v \<noteq> JString s))"
proof -
  have nil: "IsNil j \<longleftrightarrow> v = JNull"
    using assms by (simp add: IsNil_recognises_null_def)
  have no: "\<not> EqualFold ''yes'' ''true''" "\<not> EqualFold ''1'' ''true''"
    by (simp_all add: EqualFold_def)
  have fold: "\<forall>s. EqualFold s ''true'' \<longleftrightarrow>
            (\<exists>a b c d. s = [a, b, c, d] \<and> (a = CHR ''t'' \<or> a = CHR ''T'')
               \<and> (b = CHR ''r'' \<or> b = CHR ''R'') \<and> (c = CHR ''u'' \<or> c = CHR ''U'')
               \<and> (d = CHR ''e'' \<or> d = CHR ''E''))"
    using EqualFold_true_iff by blast
  have rest: "(v = JNull \<longrightarrow>
            BooleanField_SQLValue IsNil Unmarshal j = Inr SQLNull \<and>
            Int64BoolField_SQLValue IsNil Unmarshal j = Inr SQLNull)
       \<and> (\<forall>b. v = JBool b \<longrightarrow>
            BooleanField_SQLValue IsNil Unmarshal j = Inr (SQLBool b) \<and>
            Int64BoolField_SQLValue IsNil Unmarshal j = Inr (SQLInt64 (if b then 1 else 0)))
       \<and> (\<forall>s. v = JString s \<longrightarrow>
            BooleanField_SQLValue IsNil Unmarshal j = Inr (SQLBool (EqualFold s ''true'')) \<and>
            Int64BoolField_SQLValue IsNil Unmarshal j =
              Inr (SQLInt64 (if EqualFold s ''true'' then 1 else 0)))
       \<and> ((\<exists>e. BooleanField_SQLValue IsNil Unmarshal j = Inl e) \<longleftrightarrow>
            v \<noteq> JNull \<and> (\<forall>b. v \<noteq> JBool b) \<and> (\<forall>s. v \<noteq> JString s))
       \<and> ((\<exists>e. Int64BoolField_SQLValue IsNil Unmarshal j = Inl e) \<longleftrightarrow>
            v \<noteq> JNull \<and> (\<forall>b. v \<noteq> JBool b) \<and> (\<forall>s. v \<noteq> JString s))"
    using assms(2) nil
    by (cases v) (auto simp add: BooleanField_SQLValue_def Int64BoolField_SQLValue_def)
  show ?thesis
    using rest no fold by blast
qed

theorem bool_field_SQLValue_witness:
  "IsNil_recognises_null sample_IsNil sample_Unmarshal
   \<and> sample_Unmarshal (CHR 0x22 # ''yes'' @ [CHR 0x22]) = Inr (JString ''yes'')
   \<and> BooleanField_SQLValue sample_IsNil sample_Unmarshal (CHR 0x22 # ''yes'' @ [CHR 0x22])
       = Inr (SQLBool False)
   \<and> Int64BoolField_SQLValue sample_IsNil sample_Unmarshal (CHR 0x22 # ''yes'' @ [CHR 0x22])
       = Inr (SQLInt64 0)"
proof -
  have u: "sample_Unmarshal (CHR 0x22 # ''yes'' @ [CHR 0x22]) = Inr (JString ''yes'')"
    by (simp add: sample_Unmarshal_def)
  show ?thesis
    using bool_field_SQLValue [OF sample_IsNil_ok u] sample_IsNil_ok u by simp
qed


subsection \<open>Properties of the coin selection\<close>

lemma loop_reaches_total:
  "loop_reaches f mk sender e n (ts, totalSum, refs, coins)
   \<Longrightarrow> totalSum = (\<Sum>c\<leftarrow>coins. coin_Amount c)"
proof (induction n "(ts, totalSum, refs, coins)" arbitrary: ts totalSum refs coins
    rule: loop_reaches.induct)
  case reaches_start
  then show ?case by simp
next
  case (reaches_page n ts0 total0 refs0 coins0 states)
  then show ?case
    using processStates_Next_total by blast
qed

lemma loop_reaches_result:
  "loop_reaches f mk sender e n sel \<Longrightarrow>
     prepareInputs_loop f mk sender e 0 (0, 0, [], []) = prepareInputs_loop f mk sender e n sel"
proof (induction rule: loop_reaches.induct)
  case reaches_start
  then show ?case by simp
next
  case (reaches_page n ts totalSum refs coins states sel)
  then show ?case
    by (simp add: prepareInputs_loop.simps [of f mk sender e n])
qed

text \<open>
  Claim C9. When the first query for the sender's coins returns no states, the
  selection fails with exactly "insufficient funds (available=0)" and returns no coins
  or state references (the result is the error). More generally, whenever a query
  returns no states, the error reports in base 10 the sum of the amounts of the coins
  accumulated so far.
\<close>

theorem prepareInputs_insufficient_funds:
  "(findAvailableStates 0 (buildQuery sender 0) = Inr [] \<longrightarrow>
      prepareInputs findAvailableStates makeCoin sender params
        = Inl ''insufficient funds (available=0)'')
   \<and> (\<forall>n ts totalSum refs coins.
        loop_reaches findAvailableStates makeCoin sender (expectedTotalOf params) n
          (ts, totalSum, refs, coins) \<longrightarrow>
        findAvailableStates n (buildQuery sender ts) = Inr [] \<longrightarrow>
        prepareInputs findAvailableStates makeCoin sender params
          = Inl (''insufficient funds (available='' @ Text10 (\<Sum>c\<leftarrow>coins. coin_Amount c) @ '')''))"
proof (intro conjI allI impI)
  assume "findAvailableStates 0 (buildQuery sender 0) = Inr []"
  then show "prepareInputs findAvailableStates makeCoin sender params
        = Inl ''insufficient funds (available=0)''"
    by (simp add: prepareInputs_def prepareInputs_loop.simps Text10_def digits10.simps)
next
  fix n ts totalSum refs coins
  assume r: "loop_reaches findAvailableStates makeCoin sender (expectedTotalOf params) n
          (ts, totalSum, refs, coins)"
    and e: "findAvailableStates n (buildQuery sender ts) = Inr []"
  have "prepareInputs findAvailableStates makeCoin sender params
      = prepareInputs_loop findAvailableStates makeCoin sender (expectedTotalOf params) n
          (ts, totalSum, refs, coins)"
    unfolding prepareInputs_def by (rule loop_reaches_result [OF r])
  also have "\<dots> = Inl (''insufficient funds (available='' @ Text10 totalSum @ '')'')"
    using e by (simp add: prepareInputs_loop.simps)
  finally show "prepareInputs findAvailableStates makeCoin sender params
          = Inl (''insufficient funds (available='' @ Text10 (\<Sum>c\<leftarrow>coins. coin_Amount c) @ '')'')"
    using loop_reaches_total [OF r] by simp
qed

text \<open>
  Two runs: a sender with no coins asked for 10, and a sender whose only coin is worth 3
  asked for 10 (the second query, for coins created after the first, is empty).
\<close>

definition sample_makeCoin :: "string \<Rightarrow> string + ZetoCoin" where
  "sample_makeCoin d =
     (if d = ''three'' then Inr \<lparr> coin_Owner = ''alice'', coin_Amount = 3 \<rparr> else Inl ''bad coin'')"

definition sample_store :: "nat \<Rightarrow> QueryBuilder \<Rightarrow> string + StoredState list" where
  "sample_store n q =
     (if qb_GreaterThan_created q = None
      then Inr [\<lparr> Id = ''0x01'', SchemaId = ''coin'', StoredAt = 5, DataJson = ''three'' \<rparr>]
      else Inr [])"

theorem prepareInputs_insufficient_funds_witness:
  "prepareInputs (\<lambda>n q. Inr []) sample_makeCoin ''alice''
       [\<lparr> param_To = ''bob'', param_Amount = 10 \<rparr>]
     = Inl ''insufficient funds (available=0)''
   \<and> loop_reaches sample_store sample_makeCoin ''alice'' 10 1
       (5, 3, [\<lparr> ref_SchemaId = ''coin'', ref_Id = ''0x01'' \<rparr>],
        [\<lparr> coin_Owner = ''alice'', coin_Amount = 3 \<rparr>])
   \<and> sample_store 1 (buildQuery ''alice'' 5) = Inr []
   \<and> prepareInputs sample_store sample_makeCoin ''alice''
       [\<lparr> param_To = ''bob'', param_Amount = 10 \<rparr>]
     = Inl ''insufficient funds (available=3)''"
proof -
  let ?params = "[\<lparr> param_To = ''bob'', param_Amount = 10 \<rparr>]"
  have e: "expectedTotalOf ?params = 10"
    by (simp add: expectedTotalOf_def)
  have q0: "sample_store 0 (buildQuery ''alice'' 0)
      = Inr [\<lparr> Id = ''0x01'', SchemaId = ''coin'', StoredAt = 5, DataJson = ''three'' \<rparr>]"
    by (simp add: sample_store_def buildQuery_def)
  have q1: "sample_store 1 (buildQuery ''alice'' 5) = Inr []"
    by (simp add: sample_store_def buildQuery_def word_sless_alt)
  have p: "processStates sample_makeCoin 10
        [\<lparr> Id = ''0x01'', SchemaId = ''coin'', StoredAt = 5, DataJson = ''three'' \<rparr>] (0, 0, [], [])
      = Next (5, 3, [\<lparr> ref_SchemaId = ''coin'', ref_Id = ''0x01'' \<rparr>],
              [\<lparr> coin_Owner = ''alice'', coin_Amount = 3 \<rparr>])"
    by (simp add: sample_makeCoin_def MAX_INPUT_COUNT_def)
  have r: "loop_reaches sample_store sample_makeCoin ''alice'' 10 (Suc 0)
       (5, 3, [\<lparr> ref_SchemaId = ''coin'', ref_Id = ''0x01'' \<rparr>],
        [\<lparr> coin_Owner = ''alice'', coin_Amount = 3 \<rparr>])"
    using reaches_page [where findAvailableStates = sample_store and makeCoin = sample_makeCoin
        and sender = "''alice''" and expectedTotal = 10, OF reaches_start q0 _ p]
    by simp
  have t: "Text10 3 = ''3''"
    by (simp add: Text10_def digits10.simps)
  from prepareInputs_insufficient_funds [of "\<lambda>n q. Inr []" "''alice''" sample_makeCoin ?params]
  have first: "prepareInputs (\<lambda>n q. Inr []) sample_makeCoin ''alice'' ?params
     = Inl ''insufficient funds (available=0)''"
    by simp
  from prepareInputs_insufficient_funds [of sample_store "''alice''" sample_makeCoin ?params]
    r q1 e t
  have second: "prepareInputs sample_store sample_makeCoin ''alice'' ?params
     = Inl ''insufficient funds (available=3)''"
    by fastforce
  show ?thesis
    using first second r q1 by simp
qed


section \<open>State manager: the domain context (package statemgr)\<close>

text \<open>
  A domain context is an in-memory overlay on the durable state store for one domain
  and contract address. Its methods run under the context's mutex; the model passes
  the context explicitly and returns it updated, also when the method fails, since the
  source does not undo what it has written before an error.

  Byte strings (\<^verbatim>\<open>HexBytes\<close>, \<^verbatim>\<open>Bytes32\<close>) are lists of characters; the creating map is
  keyed by \<^verbatim>\<open>ID.String()\<close>, which is one-to-one on the bytes, so the model keys it by the
  id itself. A UUID is 128 bits, \<^verbatim>\<open>uuid.UUID{}\<close> being zero.
\<close>

type_synonym HexBytes = string
type_synonym Bytes32 = string
type_synonym UUID = "128 word"

datatype StateLockType = StateLockTypeCreate | StateLockTypeRead | StateLockTypeSpend

record StateLock =
  lock_State :: HexBytes
  lock_Transaction :: UUID
  lock_Type :: StateLockType

record StateNullifier =
  nullifier_ID :: HexBytes
  nullifier_State :: HexBytes

record State =
  state_ID :: HexBytes
  state_Schema :: Bytes32
  state_Data :: string
  state_Locks :: "StateLock list"
  state_Nullifier :: "StateNullifier option"

text \<open>
  \<^verbatim>\<open>StateWithLabels\<close> pairs a state with the label values projected from its data; the
  type of label values (\<^verbatim>\<open>filters.ValueSet\<close>) is left open. In the source the overlay
  list and the creating map hold pointers to one object per upsert, and the nullifier
  and lock fields are written through them; the model keeps a value in each place and
  writes the nullifier to the creating map's copy, the only one that is read.
\<close>

record 'v StateWithLabels =
  swl_State :: State
  LabelValues :: 'v

record StateUpsert =
  upsert_ID :: HexBytes
  upsert_SchemaID :: Bytes32
  upsert_Data :: string
  upsert_CreatedBy :: "UUID option"

datatype dc_error =
    MsgStateDomainContextClosed
  | MsgStateFlushFailedDomainReset dc_error
  | MsgStateNullifierStateNotInCtx HexBytes HexBytes
  | MsgStateNullifierConflict HexBytes HexBytes
  | MsgStateLockNoTransaction
  | MsgStateLockNoState
  | MsgStateLockCreateNotInContext HexBytes
  | MsgContextCanceled
  | RuntimePanic
  | CollaboratorError string

text \<open>
  A write operation collects what the next flush will write. \<open>op_flushed\<close> stands for
  the channel \<^verbatim>\<open>flushed\<close> being closed, \<open>op_flushResult\<close> for the error the flush left
  (\<open>None\<close> is Go's nil error).
\<close>

record 'v writeOperation =
  op_states :: "'v StateWithLabels list"
  op_stateNullifiers :: "StateNullifier list"
  op_flushed :: bool
  op_flushResult :: "dc_error option"

record 'v domainContext =
  dc_id :: UUID
  domainName :: string
  contractAddress :: string
  unFlushed :: "'v writeOperation option"
  flushing :: "'v writeOperation option"
  closed :: bool
  creatingStates :: "(HexBytes \<times> 'v StateWithLabels) list"
  txLocks :: "StateLock list"

text \<open>
  A query, as far as the context looks into it: \<^verbatim>\<open>filters.EvalQuery\<close> on the label values
  of a state (a match, or an error), the order of \<^verbatim>\<open>query.Sort\<close> as a key into a linear
  order, an error when the sort instructions are invalid, and \<^verbatim>\<open>query.Limit\<close>.
\<close>

record ('v, 'k) QueryJSON =
  q_EvalQuery :: "'v \<Rightarrow> dc_error + bool"
  q_SortKey :: "'v \<Rightarrow> 'k"
  q_SortError :: "dc_error option"
  q_Limit :: "int option"

text \<open>
  A schema, as far as the context uses it: its id, \<^verbatim>\<open>RecoverLabels\<close> (the label values of
  a stored state) and \<^verbatim>\<open>ProcessState\<close> (validation of an upsert's data and id, giving the
  state with its label values).
\<close>

record 'v Schema =
  schema_ID :: Bytes32
  RecoverLabels :: "State \<Rightarrow> dc_error + 'v"
  ProcessState :: "string \<Rightarrow> HexBytes \<Rightarrow> dc_error + 'v StateWithLabels"

record durableState =
  row_State :: State
  row_Spent :: bool

text \<open>
  The state manager behind the context: the schema registry (\<^verbatim>\<open>GetSchema\<close>), the durable
  rows of this domain and contract, and the database queries, which are not among the
  sources at hand. \<open>db_failure\<close> is the error of a failing database.
\<close>

record ('v, 'k) stateStore =
  GetSchema :: "Bytes32 \<Rightarrow> dc_error + 'v Schema"
  durableStates :: "durableState list"
  db_failure :: "dc_error option"
  findAvailableNullifiers ::
    "Bytes32 \<Rightarrow> ('v, 'k) QueryJSON \<Rightarrow> HexBytes list \<Rightarrow> HexBytes list \<Rightarrow> HexBytes list
       \<Rightarrow> dc_error + ('v Schema \<times> State list)"

definition limitTo :: "int option \<Rightarrow> 'a list \<Rightarrow> 'a list" where
  "limitTo lim xs = (case lim of None \<Rightarrow> xs | Some n \<Rightarrow> take (nat n) xs)"

text \<open>
  Modelled from the spec: \<^verbatim>\<open>filters.SortValueSetInPlace\<close> is missing. It re-sorts the list
  under the query's sort; the model sorts stably on the sort key.
\<close>

definition SortValueSetInPlace ::
  "('v, 'k::linorder) QueryJSON \<Rightarrow> 'v StateWithLabels list \<Rightarrow> dc_error + 'v StateWithLabels list"
where
  "SortValueSetInPlace query fullList =
     (case q_SortError query of
        Some err \<Rightarrow> Inl err
      | None \<Rightarrow> Inr (sort_key (\<lambda>s. q_SortKey query (LabelValues s)) fullList))"

text \<open>
  Modelled from the spec: \<^verbatim>\<open>stateManager.findStates\<close> is missing. With status
  "available" it runs the query against durable storage, leaving out the states that
  are spent and the state ids passed as excluded, sorted under the query's sort and
  truncated to the query limit.
\<close>

definition durableMatch ::
  "'v Schema \<Rightarrow> ('v, 'k) QueryJSON \<Rightarrow> HexBytes list \<Rightarrow> durableState \<Rightarrow> 'v StateWithLabels option"
where
  "durableMatch schema query excluded row =
     (if row_Spent row \<or> state_Schema (row_State row) \<noteq> schema_ID schema
         \<or> state_ID (row_State row) \<in> set excluded
      then None
      else case RecoverLabels schema (row_State row) of
        Inl err \<Rightarrow> None
      | Inr labels \<Rightarrow>
          if q_EvalQuery query labels = Inr True
          then Some \<lparr> swl_State = row_State row, LabelValues = labels \<rparr>
          else None)"

definition findStates ::
  "('v, 'k::linorder) stateStore \<Rightarrow> Bytes32 \<Rightarrow> ('v, 'k) QueryJSON \<Rightarrow> HexBytes list
     \<Rightarrow> dc_error + ('v Schema \<times> State list)"
where
  "findStates ss schemaID query excluded =
     (case GetSchema ss schemaID of
        Inl err \<Rightarrow> Inl err
      | Inr schema \<Rightarrow>
          (case db_failure ss of
             Some err \<Rightarrow> Inl err
           | None \<Rightarrow>
               (case q_SortError query of
                  Some err \<Rightarrow> Inl err
                | None \<Rightarrow>
                    Inr (schema,
                      map swl_State
                        (limitTo (q_Limit query)
                          (sort_key (\<lambda>s. q_SortKey query (LabelValues s))
                            (List.map_filter (durableMatch schema query excluded)
                              (durableStates ss))))))))"

text \<open>Modelled from the spec: \<^verbatim>\<open>writer.newWriteOp\<close> is missing; it gives an empty write operation.\<close>

definition newWriteOp :: "'v writeOperation" where
  "newWriteOp = \<lparr> op_states = [], op_stateNullifiers = [], op_flushed = False, op_flushResult = None \<rparr>"

subsection \<open>The methods of the context\<close>

definition checkResetInitUnFlushed :: "'v domainContext \<Rightarrow> dc_error + 'v domainContext" where
  "checkResetInitUnFlushed dc =
     (if closed dc then Inl MsgStateDomainContextClosed
      else case (case flushing dc of
                   Some f \<Rightarrow> if op_flushed f then op_flushResult f else None
                 | None \<Rightarrow> None) of
        Some flushResult \<Rightarrow> Inl (MsgStateFlushFailedDomainReset flushResult)
      | None \<Rightarrow>
          Inr (if unFlushed dc = None then dc \<lparr> unFlushed := Some newWriteOp \<rparr> else dc))"

text \<open>The write operation accepting appends, once \<open>checkResetInitUnFlushed\<close> has passed.\<close>

definition theUnFlushed :: "'v domainContext \<Rightarrow> 'v writeOperation" where
  "theUnFlushed dc = (case unFlushed dc of Some w \<Rightarrow> w | None \<Rightarrow> newWriteOp)"

definition isSpendLocked :: "StateLock list \<Rightarrow> HexBytes \<Rightarrow> bool" where
  "isSpendLocked locks stateID =
     (\<exists>lock \<in> set locks. lock_State lock = stateID \<and> lock_Type lock = StateLockTypeSpend)"

definition getUnFlushedStates ::
  "'v domainContext \<Rightarrow> dc_error + ('v domainContext \<times> HexBytes list \<times> HexBytes list \<times> StateNullifier list)"
where
  "getUnFlushedStates dc =
     (case checkResetInitUnFlushed dc of
        Inl flushErr \<Rightarrow> Inl flushErr
      | Inr dc' \<Rightarrow>
          Inr (dc',
               map lock_State (filter (\<lambda>l. lock_Type l = StateLockTypeSpend) (txLocks dc')),
               [],
               op_stateNullifiers (theUnFlushed dc')
                 @ (case flushing dc' of Some f \<Rightarrow> op_stateNullifiers f | None \<Rightarrow> [])))"

definition applyLocks :: "'v domainContext \<Rightarrow> State list \<Rightarrow> State list" where
  "applyLocks dc states =
     map (\<lambda>s. s \<lparr> state_Locks := filter (\<lambda>l. lock_State l = state_ID s) (txLocks dc) \<rparr>) states"

text \<open>
  The loop of \<^verbatim>\<open>mergeUnFlushedApplyLocks\<close> over the creating map. Go ranges over a map in
  no fixed order; the model ranges over the association list in its order.
\<close>

fun collectMatches ::
  "'v domainContext \<Rightarrow> 'v Schema \<Rightarrow> State list \<Rightarrow> ('v, 'k) QueryJSON \<Rightarrow> bool
     \<Rightarrow> (HexBytes \<times> 'v StateWithLabels) list \<Rightarrow> 'v StateWithLabels list
     \<Rightarrow> dc_error + 'v StateWithLabels list"
where
  "collectMatches dc schema dbStates query requireNullifier [] matches = Inr matches"
| "collectMatches dc schema dbStates query requireNullifier ((k, state) # rest) matches =
     (if state_Schema (swl_State state) \<noteq> schema_ID schema
      then collectMatches dc schema dbStates query requireNullifier rest matches
      else if isSpendLocked (txLocks dc) (state_ID (swl_State state))
      then collectMatches dc schema dbStates query requireNullifier rest matches
      else if requireNullifier \<and> state_Nullifier (swl_State state) = None
      then collectMatches dc schema dbStates query requireNullifier rest matches
      else case q_EvalQuery query (LabelValues state) of
        Inl err \<Rightarrow> Inl err
      | Inr match \<Rightarrow>
          if match \<and> \<not> (\<exists>dbState \<in> set dbStates. state_ID dbState = state_ID (swl_State state))
          then collectMatches dc schema dbStates query requireNullifier rest (matches @ [state])
          else collectMatches dc schema dbStates query requireNullifier rest matches)"

fun recoverAll :: "'v Schema \<Rightarrow> State list \<Rightarrow> dc_error + 'v StateWithLabels list" where
  "recoverAll schema [] = Inr []"
| "recoverAll schema (s # states) =
     (case RecoverLabels schema s of
        Inl err \<Rightarrow> Inl err
      | Inr labels \<Rightarrow>
          (case recoverAll schema states of
             Inl err \<Rightarrow> Inl err
           | Inr rest \<Rightarrow> Inr (\<lparr> swl_State = s, LabelValues = labels \<rparr> # rest)))"

definition mergeInMemoryMatches ::
  "'v Schema \<Rightarrow> State list \<Rightarrow> 'v StateWithLabels list \<Rightarrow> ('v, 'k::linorder) QueryJSON
     \<Rightarrow> dc_error + State list"
where
  "mergeInMemoryMatches schema states extras query =
     (case recoverAll schema states of
        Inl err \<Rightarrow> Inl err
      | Inr recovered \<Rightarrow>
          (let persistedStateIDs = set (map state_ID states);
               fullList = recovered
                 @ filter (\<lambda>s. state_ID (swl_State s) \<notin> persistedStateIDs) extras
           in case SortValueSetInPlace query fullList of
                Inl err \<Rightarrow> Inl err
              | Inr fullList' \<Rightarrow>
                  (let len = (case q_Limit query of
                                None \<Rightarrow> int (length fullList')
                              | Some lim \<Rightarrow> if lim < int (length fullList') then lim
                                            else int (length fullList'))
                   in if len < 0 then Inl RuntimePanic
                      else Inr (map swl_State (take (nat len) fullList')))))"

definition mergeUnFlushedApplyLocks ::
  "'v domainContext \<Rightarrow> 'v Schema \<Rightarrow> State list \<Rightarrow> ('v, 'k::linorder) QueryJSON \<Rightarrow> bool
     \<Rightarrow> (dc_error + State list) \<times> 'v domainContext"
where
  "mergeUnFlushedApplyLocks dc schema dbStates query requireNullifier =
     (case checkResetInitUnFlushed dc of
        Inl flushErr \<Rightarrow> (Inl flushErr, dc)
      | Inr dc' \<Rightarrow>
          (case collectMatches dc' schema dbStates query requireNullifier (creatingStates dc') [] of
             Inl err \<Rightarrow> (Inl err, dc')
           | Inr matches \<Rightarrow>
               if 0 < length matches
               then (case mergeInMemoryMatches schema dbStates matches query of
                       Inl err \<Rightarrow> (Inl err, dc')
                     | Inr retStates \<Rightarrow> (Inr (applyLocks dc' retStates), dc'))
               else (Inr (applyLocks dc' dbStates), dc')))"

definition FindAvailableStates ::
  "('v, 'k::linorder) stateStore \<Rightarrow> 'v domainContext \<Rightarrow> Bytes32 \<Rightarrow> ('v, 'k) QueryJSON
     \<Rightarrow> (dc_error + ('v Schema \<times> State list)) \<times> 'v domainContext"
where
  "FindAvailableStates ss dc schemaID query =
     (case getUnFlushedStates dc of
        Inl err \<Rightarrow> (Inl err, dc)
      | Inr (dc1, spending, spent, nullifiers) \<Rightarrow>
          (case findStates ss schemaID query (spending @ spent) of
             Inl err \<Rightarrow> (Inl err, dc1)
           | Inr (schema, states) \<Rightarrow>
               (case mergeUnFlushedApplyLocks dc1 schema states query False of
                  (Inl err, dc2) \<Rightarrow> (Inl err, dc2)
                | (Inr states', dc2) \<Rightarrow> (Inr (schema, states'), dc2))))"


definition attachNullifier :: "StateNullifier list \<Rightarrow> State \<Rightarrow> State" where
  "attachNullifier nullifiers s =
     (if state_Nullifier s = None
      then s \<lparr> state_Nullifier := find (\<lambda>n. nullifier_State n = state_ID s) nullifiers \<rparr>
      else s)"

definition FindAvailableNullifiers ::
  "('v, 'k::linorder) stateStore \<Rightarrow> 'v domainContext \<Rightarrow> Bytes32 \<Rightarrow> ('v, 'k) QueryJSON
     \<Rightarrow> (dc_error + ('v Schema \<times> State list)) \<times> 'v domainContext"
where
  "FindAvailableNullifiers ss dc schemaID query =
     (case getUnFlushedStates dc of
        Inl err \<Rightarrow> (Inl err, dc)
      | Inr (dc1, spending, spent, nullifiers) \<Rightarrow>
          (case findAvailableNullifiers ss schemaID query (map nullifier_State nullifiers)
                  spending spent of
             Inl err \<Rightarrow> (Inl err, dc1)
           | Inr (schema, states) \<Rightarrow>
               (case mergeUnFlushedApplyLocks dc1 schema (map (attachNullifier nullifiers) states)
                       query True of
                  (Inl err, dc2) \<Rightarrow> (Inl err, dc2)
                | (Inr states', dc2) \<Rightarrow> (Inr (schema, states'), dc2))))"

fun addStateLocks :: "'v domainContext \<Rightarrow> StateLock list \<Rightarrow> dc_error option \<times> 'v domainContext" where
  "addStateLocks dc [] = (None, dc)"
| "addStateLocks dc (l # locks) =
     (if lock_Transaction l = 0 then (Some MsgStateLockNoTransaction, dc)
      else if length (lock_State l) = 0 then (Some MsgStateLockNoState, dc)
      else if lock_Type l = StateLockTypeCreate \<and> map_of (creatingStates dc) (lock_State l) = None
      then (Some (MsgStateLockCreateNotInContext (lock_State l)), dc)
      else addStateLocks (dc \<lparr> txLocks := txLocks dc @ [l] \<rparr>) locks)"

definition AddStateLocks :: "'v domainContext \<Rightarrow> StateLock list \<Rightarrow> dc_error option \<times> 'v domainContext" where
  "AddStateLocks dc locks =
     (case checkResetInitUnFlushed dc of
        Inl flushErr \<Rightarrow> (Some flushErr, dc)
      | Inr dc' \<Rightarrow> addStateLocks dc' locks)"

text \<open>
  The first loop of \<^verbatim>\<open>UpsertStates\<close>, which runs before the mutex is taken: it gives
  \<^verbatim>\<open>withValues\<close>, \<^verbatim>\<open>stateLocks\<close> and \<^verbatim>\<open>toMakeAvailable\<close>, or the first error.
\<close>

fun processUpserts ::
  "('v, 'k) stateStore \<Rightarrow> StateUpsert list
     \<Rightarrow> dc_error + ('v StateWithLabels list \<times> StateLock list \<times> 'v StateWithLabels list)"
where
  "processUpserts ss [] = Inr ([], [], [])"
| "processUpserts ss (ns # stateUpserts) =
     (case GetSchema ss (upsert_SchemaID ns) of
        Inl err \<Rightarrow> Inl err
      | Inr schema \<Rightarrow>
          (case ProcessState schema (upsert_Data ns) (upsert_ID ns) of
             Inl err \<Rightarrow> Inl err
           | Inr vs \<Rightarrow>
               (case processUpserts ss stateUpserts of
                  Inl err \<Rightarrow> Inl err
                | Inr (withValues, stateLocks, toMakeAvailable) \<Rightarrow>
                    (case upsert_CreatedBy ns of
                       Some createdBy \<Rightarrow>
                         Inr (vs # withValues,
                              \<lparr> lock_State = state_ID (swl_State vs), lock_Transaction = createdBy,
                                lock_Type = StateLockTypeCreate \<rparr> # stateLocks,
                              vs # toMakeAvailable)
                     | None \<Rightarrow> Inr (vs # withValues, stateLocks, toMakeAvailable)))))"

definition UpsertStates ::
  "('v, 'k) stateStore \<Rightarrow> 'v domainContext \<Rightarrow> StateUpsert list
     \<Rightarrow> (dc_error + State list) \<times> 'v domainContext"
where
  "UpsertStates ss dc stateUpserts =
     (case processUpserts ss stateUpserts of
        Inl err \<Rightarrow> (Inl err, dc)
      | Inr (withValues, stateLocks, toMakeAvailable) \<Rightarrow>
          (case checkResetInitUnFlushed dc of
             Inl flushErr \<Rightarrow> (Inl flushErr, dc)
           | Inr dc1 \<Rightarrow>
               (let deDuppedUnFlushedStates =
                      filter (\<lambda>existing. \<not> (\<exists>s \<in> set withValues.
                                 state_ID (swl_State existing) = state_ID (swl_State s)))
                        (op_states (theUnFlushed dc1));
                    dc2 = dc1 \<lparr> unFlushed :=
                            Some ((theUnFlushed dc1) \<lparr> op_states := deDuppedUnFlushedStates @ withValues \<rparr>),
                          creatingStates :=
                            fold (\<lambda>s cs. AList.update (state_ID (swl_State s)) s cs) toMakeAvailable
                              (creatingStates dc1) \<rparr>
                in case addStateLocks dc2 stateLocks of
                     (Some err, dc3) \<Rightarrow> (Inl err, dc3)
                   | (None, dc3) \<Rightarrow> (Inr (map swl_State withValues), dc3))))"

fun attachNullifiers ::
  "(HexBytes \<times> 'v StateWithLabels) list \<Rightarrow> StateNullifier list
     \<Rightarrow> dc_error option \<times> (HexBytes \<times> 'v StateWithLabels) list"
where
  "attachNullifiers cs [] = (None, cs)"
| "attachNullifiers cs (nullifier # nullifiers) =
     (case map_of cs (nullifier_State nullifier) of
        None \<Rightarrow>
          (Some (MsgStateNullifierStateNotInCtx (nullifier_State nullifier) (nullifier_ID nullifier)), cs)
      | Some creatingState \<Rightarrow>
          (case state_Nullifier (swl_State creatingState) of
             Some existing \<Rightarrow>
               if nullifier_ID existing \<noteq> nullifier_ID nullifier
               then (Some (MsgStateNullifierConflict (nullifier_State nullifier) (nullifier_ID existing)), cs)
               else attachNullifiers
                      (AList.update (nullifier_State nullifier)
                         (creatingState \<lparr> swl_State :=
                            (swl_State creatingState) \<lparr> state_Nullifier := Some nullifier \<rparr> \<rparr>) cs)
                      nullifiers
           | None \<Rightarrow>
               attachNullifiers
                 (AList.update (nullifier_State nullifier)
                    (creatingState \<lparr> swl_State :=
                       (swl_State creatingState) \<lparr> state_Nullifier := Some nullifier \<rparr> \<rparr>) cs)
                 nullifiers))"

definition UpsertNullifiers ::
  "'v domainContext \<Rightarrow> StateNullifier list \<Rightarrow> dc_error option \<times> 'v domainContext"
where
  "UpsertNullifiers dc nullifiers =
     (case checkResetInitUnFlushed dc of
        Inl flushErr \<Rightarrow> (Some flushErr, dc)
      | Inr dc1 \<Rightarrow>
          (let dc2 = dc1 \<lparr> unFlushed :=
                       Some ((theUnFlushed dc1) \<lparr> op_stateNullifiers :=
                               op_stateNullifiers (theUnFlushed dc1) @ nullifiers \<rparr>) \<rparr>
           in case attachNullifiers (creatingStates dc2) nullifiers of
                (err, cs) \<Rightarrow> (err, dc2 \<lparr> creatingStates := cs \<rparr>)))"

fun clearLocks ::
  "UUID list \<Rightarrow> StateLock list \<Rightarrow> (HexBytes \<times> 'v StateWithLabels) list \<Rightarrow> StateLock list
     \<Rightarrow> (HexBytes \<times> 'v StateWithLabels) list \<times> StateLock list"
where
  "clearLocks transactions [] cs newLocks = (cs, newLocks)"
| "clearLocks transactions (lock # locks) cs newLocks =
     (if \<exists>tx \<in> set transactions. lock_Transaction lock = tx
      then clearLocks transactions locks
             (if lock_Type lock = StateLockTypeCreate then AList.delete (lock_State lock) cs else cs)
             newLocks
      else clearLocks transactions locks cs (newLocks @ [lock]))"

definition ClearTransactions :: "'v domainContext \<Rightarrow> UUID list \<Rightarrow> 'v domainContext" where
  "ClearTransactions dc transactions =
     (case clearLocks transactions (txLocks dc) (creatingStates dc) [] of
        (cs, newLocks) \<Rightarrow> dc \<lparr> creatingStates := cs, txLocks := newLocks \<rparr>)"

text \<open>
  \<^verbatim>\<open>clearExistingFlush\<close> blocks while a flush is in flight, until the flush routine closes
  the channel or the caller's context is done. Which of the two happens, and the result
  the flush leaves, is the parameter \<open>wait\<close>; it is looked at only when the method blocks.
\<close>

datatype flush_wait = FlushCompletes "dc_error option" | ContextDone

definition clearExistingFlush ::
  "flush_wait \<Rightarrow> 'v domainContext \<Rightarrow> dc_error option \<times> 'v domainContext"
where
  "clearExistingFlush wait dc =
     (case flushing dc of
        None \<Rightarrow> (None, dc)
      | Some f \<Rightarrow>
          if op_flushed f then (op_flushResult f, dc)
          else (case wait of
                  FlushCompletes flushResult \<Rightarrow>
                    (flushResult,
                     dc \<lparr> flushing := Some (f \<lparr> op_flushed := True, op_flushResult := flushResult \<rparr>) \<rparr>)
                | ContextDone \<Rightarrow> (Some MsgContextCanceled, dc)))"

text \<open>
  \<^verbatim>\<open>Reset\<close> returns nothing to its caller. What it has learnt from \<^verbatim>\<open>clearExistingFlush\<close> it
  writes to the log, as the warning "Reset recovering from flush error"; the model returns
  the error of that warning (\<open>None\<close> when nothing is logged) beside the context.
\<close>

definition Reset :: "flush_wait \<Rightarrow> 'v domainContext \<Rightarrow> dc_error option \<times> 'v domainContext" where
  "Reset wait dc =
     (case clearExistingFlush wait dc of
        (err, dc') \<Rightarrow>
          (err, dc'
                \<lparr> creatingStates := [], flushing := None, unFlushed := None, txLocks := [] \<rparr>))"

text \<open>
  \<^verbatim>\<open>InitiateFlush\<close> seals the write operation accepting appends and hands it to the flush
  routine \<^verbatim>\<open>doFlush\<close>, which runs on its own. \<open>doFlush\<close> below is the moment that routine
  finishes the flush held in \<open>flushing\<close>, with the result of the database write.
\<close>

definition InitiateFlush :: "flush_wait \<Rightarrow> 'v domainContext \<Rightarrow> dc_error option \<times> 'v domainContext" where
  "InitiateFlush wait dc =
     (case clearExistingFlush wait dc of
        (Some err, dc') \<Rightarrow> (Some err, dc')
      | (None, dc') \<Rightarrow>
          (None, dc' \<lparr> flushing := map_option (\<lambda>f. f \<lparr> op_flushed := False \<rparr>) (unFlushed dc'),
                       unFlushed := None \<rparr>))"

definition doFlush :: "dc_error option \<Rightarrow> 'v domainContext \<Rightarrow> 'v domainContext" where
  "doFlush flushResult dc =
     (case flushing dc of
        None \<Rightarrow> dc
      | Some f \<Rightarrow>
          if op_flushed f then dc
          else dc \<lparr> flushing := Some (f \<lparr> op_flushed := True, op_flushResult := flushResult \<rparr>) \<rparr>)"

text \<open>
  The registry of the state manager maps the id of each open context to the context
  (a reference, whose type is left open). \<^verbatim>\<open>Close\<close> marks the context closed and takes
  its id out of the registry.
\<close>

record 'r stateManager =
  domainContexts :: "UUID \<rightharpoonup> 'r"

definition GetDomainContext :: "'r stateManager \<Rightarrow> UUID \<Rightarrow> 'r option" where
  "GetDomainContext sm contextID = domainContexts sm contextID"

definition Close :: "'r stateManager \<Rightarrow> 'v domainContext \<Rightarrow> 'r stateManager \<times> 'v domainContext" where
  "Close sm dc =
     (sm \<lparr> domainContexts := (domainContexts sm) (dc_id dc := None) \<rparr>, dc \<lparr> closed := True \<rparr>)"


definition NewDomainContext ::
  "'r stateManager \<Rightarrow> 'r \<Rightarrow> UUID \<Rightarrow> string \<Rightarrow> string \<Rightarrow> 'r stateManager \<times> 'v domainContext"
where
  "NewDomainContext sm ref newID domain address =
     (sm \<lparr> domainContexts := (domainContexts sm) (newID \<mapsto> ref) \<rparr>,
      \<lparr> dc_id = newID, domainName = domain, contractAddress = address, unFlushed = None,
        flushing = None, closed = False, creatingStates = [], txLocks = [] \<rparr>)"

subsection \<open>A small store and context, for the examples below\<close>

text \<open>
  One schema, "coin", whose only label is the length of the data; a state is valid when
  its data is not empty.
\<close>

definition sample_schema :: "int Schema" where
  "sample_schema =
     \<lparr> schema_ID = ''coin'',
       RecoverLabels = (\<lambda>s. Inr (int (length (state_Data s)))),
       ProcessState = (\<lambda>data stateID.
          if data = [] then Inl (CollaboratorError ''invalid state'')
          else Inr \<lparr> swl_State = \<lparr> state_ID = stateID, state_Schema = ''coin'', state_Data = data,
                                   state_Locks = [], state_Nullifier = None \<rparr>,
                     LabelValues = int (length data) \<rparr>) \<rparr>"

definition sample_stateStore :: "(int, int) stateStore" where
  "sample_stateStore =
     \<lparr> GetSchema = (\<lambda>schemaID. if schemaID = ''coin'' then Inr sample_schema
                                else Inl (CollaboratorError ''schema not found'')),
       durableStates = [],
       db_failure = None,
       findAvailableNullifiers = (\<lambda>schemaID query withNullifiers spending spent.
          Inr (sample_schema, [])) \<rparr>"

definition sample_context :: "int domainContext" where
  "sample_context = snd (NewDomainContext \<lparr> domainContexts = Map.empty \<rparr> (0::nat) 1 ''zeto'' ''0xaa'')"

definition sample_state :: "string \<Rightarrow> string \<Rightarrow> int StateWithLabels" where
  "sample_state stateID data =
     \<lparr> swl_State = \<lparr> state_ID = stateID, state_Schema = ''coin'', state_Data = data,
                      state_Locks = [], state_Nullifier = None \<rparr>,
       LabelValues = int (length data) \<rparr>"

text \<open>The context after transaction 7 has created the state "s1" in it.\<close>

definition sample_created :: "int domainContext" where
  "sample_created =
     snd (UpsertStates sample_stateStore sample_context
            [\<lparr> upsert_ID = ''s1'', upsert_SchemaID = ''coin'', upsert_Data = ''abc'',
               upsert_CreatedBy = Some 7 \<rparr>])"

lemma sample_created_eq:
  "sample_created =
     \<lparr> dc_id = 1, domainName = ''zeto'', contractAddress = ''0xaa'',
       unFlushed = Some \<lparr> op_states = [sample_state ''s1'' ''abc''], op_stateNullifiers = [],
                          op_flushed = False, op_flushResult = None \<rparr>,
       flushing = None, closed = False,
       creatingStates = [(''s1'', sample_state ''s1'' ''abc'')],
       txLocks = [\<lparr> lock_State = ''s1'', lock_Transaction = 7, lock_Type = StateLockTypeCreate \<rparr>] \<rparr>"
  by (simp add: sample_created_def UpsertStates_def sample_stateStore_def sample_schema_def
      sample_context_def NewDomainContext_def checkResetInitUnFlushed_def theUnFlushed_def
      newWriteOp_def sample_state_def)

subsection \<open>Properties of the methods\<close>

lemma checkResetInitUnFlushed_Inr:
  "checkResetInitUnFlushed dc = Inr dc1 \<Longrightarrow> dc1 = dc \<lparr> unFlushed := Some (theUnFlushed dc) \<rparr>"
  by (cases "unFlushed dc")
     (auto simp add: checkResetInitUnFlushed_def theUnFlushed_def split: if_splits option.splits)


lemma addStateLocks_keeps:
  "unFlushed (snd (addStateLocks dc locks)) = unFlushed dc"
  "flushing (snd (addStateLocks dc locks)) = flushing dc"
  "closed (snd (addStateLocks dc locks)) = closed dc"
  "creatingStates (snd (addStateLocks dc locks)) = creatingStates dc"
  by (induction dc locks rule: addStateLocks.induct) auto


lemma UpsertStates_snd:
  assumes "processUpserts ss stateUpserts = Inr (withValues, stateLocks, toMakeAvailable)"
    and "checkResetInitUnFlushed dc = Inr dc1"
  shows "snd (UpsertStates ss dc stateUpserts) =
           snd (addStateLocks
             (dc1 \<lparr> unFlushed :=
                      Some ((theUnFlushed dc1) \<lparr> op_states :=
                         filter (\<lambda>existing. \<not> (\<exists>s \<in> set withValues.
                                 state_ID (swl_State existing) = state_ID (swl_State s)))
                           (op_states (theUnFlushed dc1)) @ withValues \<rparr>),
                    creatingStates :=
                      fold (\<lambda>s cs. AList.update (state_ID (swl_State s)) s cs) toMakeAvailable
                        (creatingStates dc1) \<rparr>)
             stateLocks)"
  using assms by (simp add: UpsertStates_def Let_def split: prod.splits option.splits)


lemma UpsertStates_overlay:
  assumes "processUpserts ss stateUpserts = Inr (withValues, stateLocks, toMakeAvailable)"
    and "checkResetInitUnFlushed dc = Inr dc1"
  shows "op_states (theUnFlushed (snd (UpsertStates ss dc stateUpserts))) =
           filter (\<lambda>existing. state_ID (swl_State existing) \<notin> set (map (state_ID \<circ> swl_State) withValues))
             (op_states (theUnFlushed dc)) @ withValues"
proof -
  have dc1: "dc1 = dc \<lparr> unFlushed := Some (theUnFlushed dc) \<rparr>"
    using assms(2) by (rule checkResetInitUnFlushed_Inr)
  have t: "theUnFlushed dc1 = theUnFlushed dc"
    by (simp add: dc1 theUnFlushed_def)
  have f: "(\<lambda>existing. \<not> (\<exists>s \<in> set withValues.
                                 state_ID (swl_State existing) = state_ID (swl_State s)))
         = (\<lambda>existing. state_ID (swl_State existing) \<notin> set (map (state_ID \<circ> swl_State) withValues))"
    by auto
  show ?thesis
    unfolding UpsertStates_snd [OF assms] theUnFlushed_def [of "snd _"] addStateLocks_keeps t f
    by simp
qed


lemma distinct_dedup_append:
  assumes "distinct (map f xs)" "distinct (map f ys)"
  shows "distinct (map f (filter (\<lambda>x. f x \<notin> set (map f ys)) xs @ ys))"
  using assms by (auto simp add: distinct_map_filter)


lemma attachNullifiers_keys:
  "map fst (snd (attachNullifiers cs ns)) = map fst cs"
proof (induction cs ns rule: attachNullifiers.induct)
  case (1 cs)
  then show ?case by simp
next
  case (2 cs n ns)
  have upd: "\<And>c v. map_of cs (nullifier_State n) = Some c \<Longrightarrow>
     map fst (AList.update (nullifier_State n) v cs) = map fst cs"
    by (metis update_keys domI dom_map_of_conv_image_fst set_map)
  show ?case
    using 2 upd by (auto split: option.splits)
qed



definition nullifierRejected :: "(HexBytes \<times> 'v StateWithLabels) list \<Rightarrow> StateNullifier \<Rightarrow> bool" where
  "nullifierRejected cs n =
     (case map_of cs (nullifier_State n) of
        None \<Rightarrow> True
      | Some c \<Rightarrow> (case state_Nullifier (swl_State c) of
                     None \<Rightarrow> False
                   | Some m \<Rightarrow> nullifier_ID m \<noteq> nullifier_ID n))"


lemma attachNullifiers_fails_iff:
  "fst (attachNullifiers cs ns) \<noteq> None \<longleftrightarrow>
     (\<exists>n \<in> set ns. nullifierRejected cs n)
     \<or> (\<exists>n \<in> set ns. \<exists>n' \<in> set ns. nullifier_State n = nullifier_State n'
            \<and> nullifier_ID n \<noteq> nullifier_ID n')"
proof (induction ns arbitrary: cs)
  case Nil
  then show ?case by simp
next
  case (Cons n ns)
  show ?case
  proof (cases "nullifierRejected cs n")
    case True
    then have "fst (attachNullifiers cs (n # ns)) \<noteq> None"
      by (auto simp add: nullifierRejected_def split: option.splits)
    with True show ?thesis by auto
  next
    case False
    then obtain c where c: "map_of cs (nullifier_State n) = Some c"
      by (auto simp add: nullifierRejected_def split: option.splits)
    define c' where "c' = c \<lparr> swl_State := (swl_State c) \<lparr> state_Nullifier := Some n \<rparr> \<rparr>"
    define cs' where "cs' = AList.update (nullifier_State n) c' cs"
    have step: "attachNullifiers cs (n # ns) = attachNullifiers cs' ns"
      using False c by (auto simp add: nullifierRejected_def cs'_def c'_def split: option.splits)
    have rej: "nullifierRejected cs' n' \<longleftrightarrow>
        (if nullifier_State n' = nullifier_State n then nullifier_ID n \<noteq> nullifier_ID n'
         else nullifierRejected cs n')" for n'
      by (simp add: nullifierRejected_def cs'_def update_conv' c'_def)
    have old: "nullifier_State n' = nullifier_State n \<Longrightarrow> nullifierRejected cs n'
        \<Longrightarrow> nullifier_ID n \<noteq> nullifier_ID n'" for n'
      using False c by (auto simp add: nullifierRejected_def split: option.splits)
    have "fst (attachNullifiers cs (n # ns)) \<noteq> None \<longleftrightarrow>
       (\<exists>n' \<in> set ns. nullifierRejected cs' n')
       \<or> (\<exists>a \<in> set ns. \<exists>b \<in> set ns. nullifier_State a = nullifier_State b
            \<and> nullifier_ID a \<noteq> nullifier_ID b)"
      unfolding step by (rule Cons.IH)
    also have "\<dots> \<longleftrightarrow> (\<exists>n' \<in> set (n # ns). nullifierRejected cs n')
       \<or> (\<exists>a \<in> set (n # ns). \<exists>b \<in> set (n # ns). nullifier_State a = nullifier_State b
            \<and> nullifier_ID a \<noteq> nullifier_ID b)"
    proof -
      let ?A = "\<exists>n' \<in> set ns. nullifier_State n' = nullifier_State n \<and> nullifier_ID n \<noteq> nullifier_ID n'"
      let ?B = "\<exists>n' \<in> set ns. nullifier_State n' \<noteq> nullifier_State n \<and> nullifierRejected cs n'"
      let ?P = "\<exists>a \<in> set ns. \<exists>b \<in> set ns. nullifier_State a = nullifier_State b
            \<and> nullifier_ID a \<noteq> nullifier_ID b"
      have l: "(\<exists>n' \<in> set ns. nullifierRejected cs' n') \<longleftrightarrow> ?A \<or> ?B"
        unfolding rej by (meson)
      have r1: "(\<exists>n' \<in> set (n # ns). nullifierRejected cs n') \<longleftrightarrow> (\<exists>n' \<in> set ns. nullifierRejected cs n')"
        using False by simp
      have r1': "(\<exists>n' \<in> set ns. nullifierRejected cs n') \<longrightarrow> ?A \<or> ?B"
        using old by blast
      have r2: "(\<exists>a \<in> set (n # ns). \<exists>b \<in> set (n # ns). nullifier_State a = nullifier_State b
            \<and> nullifier_ID a \<noteq> nullifier_ID b) \<longleftrightarrow> ?A \<or> ?P"
        unfolding set_simps bex_simps ball_simps by (simp only: Bex_def insert_iff) metis
      show ?thesis
        unfolding l r1 r2 using r1' by blast
    qed
    finally show ?thesis .
  qed
qed


lemma attachNullifiers_keeps_id:
  "map_of cs k = Some c \<Longrightarrow> state_Nullifier (swl_State c) = Some m
   \<Longrightarrow> \<exists>c' m'. map_of (snd (attachNullifiers cs ns)) k = Some c'
         \<and> state_Nullifier (swl_State c') = Some m' \<and> nullifier_ID m' = nullifier_ID m"
proof (induction ns arbitrary: cs c m)
  case Nil
  then show ?case by simp
next
  case (Cons n ns)
  show ?case
  proof (cases "nullifierRejected cs n")
    case True
    then have "snd (attachNullifiers cs (n # ns)) = cs"
      by (auto simp add: nullifierRejected_def split: option.splits)
    with Cons.prems show ?thesis by simp
  next
    case False
    then obtain d where d: "map_of cs (nullifier_State n) = Some d"
      by (auto simp add: nullifierRejected_def split: option.splits)
    define d' where "d' = d \<lparr> swl_State := (swl_State d) \<lparr> state_Nullifier := Some n \<rparr> \<rparr>"
    define cs' where "cs' = AList.update (nullifier_State n) d' cs"
    have step: "attachNullifiers cs (n # ns) = attachNullifiers cs' ns"
      using False d by (auto simp add: nullifierRejected_def cs'_def d'_def split: option.splits)
    have "\<exists>c1 m1. map_of cs' k = Some c1 \<and> state_Nullifier (swl_State c1) = Some m1
        \<and> nullifier_ID m1 = nullifier_ID m"
    proof (cases "k = nullifier_State n")
      case True
      with d Cons.prems False have "nullifier_ID m = nullifier_ID n"
        by (auto simp add: nullifierRejected_def)
      with True show ?thesis
        by (simp add: cs'_def update_conv' d'_def)
    next
      case False
      with Cons.prems show ?thesis
        by (simp add: cs'_def update_conv')
    qed
    then obtain c1 m1 where c1: "map_of cs' k = Some c1" "state_Nullifier (swl_State c1) = Some m1"
      and m1: "nullifier_ID m1 = nullifier_ID m"
      by blast
    from Cons.IH [OF c1] m1 show ?thesis
      unfolding step by auto
  qed
qed


lemma attachNullifiers_attached:
  "fst (attachNullifiers cs ns) = None \<Longrightarrow> n \<in> set ns
   \<Longrightarrow> \<exists>c' m'. map_of (snd (attachNullifiers cs ns)) (nullifier_State n) = Some c'
         \<and> state_Nullifier (swl_State c') = Some m' \<and> nullifier_ID m' = nullifier_ID n"
proof (induction ns arbitrary: cs)
  case Nil
  then show ?case by simp
next
  case (Cons a ns)
  have nr: "\<not> nullifierRejected cs a"
    using Cons.prems(1) by (auto simp add: nullifierRejected_def split: option.splits if_splits)
  then obtain d where d: "map_of cs (nullifier_State a) = Some d"
    by (auto simp add: nullifierRejected_def split: option.splits)
  define d' where "d' = d \<lparr> swl_State := (swl_State d) \<lparr> state_Nullifier := Some a \<rparr> \<rparr>"
  define cs' where "cs' = AList.update (nullifier_State a) d' cs"
  have step: "attachNullifiers cs (a # ns) = attachNullifiers cs' ns"
    using nr d by (auto simp add: nullifierRejected_def cs'_def d'_def split: option.splits)
  show ?case
  proof (cases "n \<in> set ns")
    case True
    from Cons.IH [OF Cons.prems(1) [unfolded step] True] show ?thesis
      unfolding step .
  next
    case False
    with Cons.prems(2) have na: "n = a" by simp
    have "map_of cs' (nullifier_State a) = Some d'" "state_Nullifier (swl_State d') = Some a"
      by (simp_all add: cs'_def update_conv' d'_def)
    from attachNullifiers_keeps_id [OF this, of ns] show ?thesis
      unfolding step na by simp
  qed
qed



lemma clearLocks_newLocks:
  "snd (clearLocks T locks cs acc) = acc @ filter (\<lambda>l. lock_Transaction l \<notin> set T) locks"
  by (induction locks arbitrary: cs acc) auto

lemma clearLocks_creating:
  "map_of (fst (clearLocks T locks cs acc)) k =
     (if \<exists>l \<in> set locks. lock_Transaction l \<in> set T \<and> lock_Type l = StateLockTypeCreate
                          \<and> lock_State l = k
      then None else map_of cs k)"
proof (induction locks arbitrary: cs acc)
  case Nil
  then show ?case by simp
next
  case (Cons lock locks)
  show ?case
  proof (cases "lock_Transaction lock \<in> set T")
    case True
    then show ?thesis
      using Cons.IH [of "if lock_Type lock = StateLockTypeCreate then AList.delete (lock_State lock) cs else cs" acc]
      by (auto simp add: delete_conv')
  next
    case False
    then show ?thesis
      using Cons.IH [of cs "acc @ [lock]"] by auto
  qed
qed

lemma ClearTransactions_alt:
  "ClearTransactions dc T =
     dc \<lparr> creatingStates := fst (clearLocks T (txLocks dc) (creatingStates dc) []),
          txLocks := snd (clearLocks T (txLocks dc) (creatingStates dc) []) \<rparr>"
  by (simp add: ClearTransactions_def split: prod.splits)

text \<open>
  Claim C5, as the code has it. \<^verbatim>\<open>ClearTransactions(T)\<close> keeps exactly the locks whose
  transaction is not in \<open>T\<close>, in their order; it takes out of the creating map the state
  of every create-lock it removes and leaves the other entries; and it does not touch
  the unflushed overlay (nor the flush in progress): the states of the cleared
  transactions stay queued for the next flush.
\<close>

theorem ClearTransactions_effect:
  "txLocks (ClearTransactions dc T) = filter (\<lambda>l. lock_Transaction l \<notin> set T) (txLocks dc)
   \<and> map_of (creatingStates (ClearTransactions dc T)) k =
       (if \<exists>l \<in> set (txLocks dc). lock_Transaction l \<in> set T \<and> lock_Type l = StateLockTypeCreate
                                    \<and> lock_State l = k
        then None else map_of (creatingStates dc) k)
   \<and> unFlushed (ClearTransactions dc T) = unFlushed dc
   \<and> flushing (ClearTransactions dc T) = flushing dc
   \<and> closed (ClearTransactions dc T) = closed dc"
  by (simp add: ClearTransactions_alt clearLocks_newLocks clearLocks_creating)

theorem ClearTransactions_effect_witness:
  "txLocks (ClearTransactions sample_created [7]) = []
   \<and> map_of (creatingStates (ClearTransactions sample_created [7])) ''s1'' = None
   \<and> unFlushed (ClearTransactions sample_created [7]) = unFlushed sample_created"
  using ClearTransactions_effect [of sample_created "[7]" "''s1''"]
  by (simp add: sample_created_eq)

text \<open>
  The claim as stated fails: transaction 7 holds the create-lock on "s1"; clearing it
  removes the lock and the creating-map entry, and "s1" is still in the unflushed overlay.
\<close>

theorem ClearTransactions_overlay_counterexample:
  "\<lparr> lock_State = ''s1'', lock_Transaction = 7, lock_Type = StateLockTypeCreate \<rparr>
       \<in> set (txLocks sample_created)
   \<and> txLocks (ClearTransactions sample_created [7]) = []
   \<and> map_of (creatingStates (ClearTransactions sample_created [7])) ''s1'' = None
   \<and> map (state_ID \<circ> swl_State) (op_states (theUnFlushed (ClearTransactions sample_created [7])))
       = [''s1'']"
  by (simp add: sample_created_eq ClearTransactions_def theUnFlushed_def sample_state_def)


lemma not_distinct_append_new:
  "\<not> distinct (map f ys) \<Longrightarrow> \<not> distinct (map f (xs @ ys))"
  by simp

text \<open>
  Claim C7, as the code has it. \<^verbatim>\<open>UpsertStates\<close> first validates every upsert against its
  schema; when one of them fails, or when the context then fails its check, the call
  returns that error and changes nothing. Otherwise it leaves in the unflushed write list
  the earlier entries whose id is not the id of a new state, in their order, followed by
  the new states in the order of the call: an earlier entry with the id of a new one is
  replaced by it (also when adding the create-locks fails afterwards). If the new states
  have pairwise different ids and the list had one entry per id before, it has one entry
  per id after; if two new states share an id, the list holds that id twice.
\<close>

theorem UpsertStates_last_write_wins:
  fixes ss :: "('v, 'k) stateStore" and dc :: "'v domainContext"
  shows "(\<forall>err. processUpserts ss stateUpserts = Inl err \<longrightarrow>
            UpsertStates ss dc stateUpserts = (Inl err, dc))
       \<and> (\<forall>withValues stateLocks toMakeAvailable.
            processUpserts ss stateUpserts = Inr (withValues, stateLocks, toMakeAvailable) \<longrightarrow>
              (\<forall>flushErr. checkResetInitUnFlushed dc = Inl flushErr \<longrightarrow>
                  UpsertStates ss dc stateUpserts = (Inl flushErr, dc))
              \<and> (\<forall>dc1. checkResetInitUnFlushed dc = Inr dc1 \<longrightarrow>
                    op_states (theUnFlushed (snd (UpsertStates ss dc stateUpserts))) =
                      filter (\<lambda>existing. state_ID (swl_State existing)
                                 \<notin> set (map (state_ID \<circ> swl_State) withValues))
                        (op_states (theUnFlushed dc)) @ withValues
                    \<and> (distinct (map (state_ID \<circ> swl_State) withValues)
                         \<and> distinct (map (state_ID \<circ> swl_State) (op_states (theUnFlushed dc))) \<longrightarrow>
                       distinct (map (state_ID \<circ> swl_State)
                         (op_states (theUnFlushed (snd (UpsertStates ss dc stateUpserts))))))
                    \<and> (\<not> distinct (map (state_ID \<circ> swl_State) withValues) \<longrightarrow>
                       \<not> distinct (map (state_ID \<circ> swl_State)
                         (op_states (theUnFlushed (snd (UpsertStates ss dc stateUpserts))))))))"
proof (intro conjI allI impI)
  fix err
  assume "processUpserts ss stateUpserts = Inl err"
  then show "UpsertStates ss dc stateUpserts = (Inl err, dc)"
    by (simp add: UpsertStates_def)
next
  fix withValues stateLocks toMakeAvailable flushErr
  assume "processUpserts ss stateUpserts = Inr (withValues, stateLocks, toMakeAvailable)"
    and "checkResetInitUnFlushed dc = Inl flushErr"
  then show "UpsertStates ss dc stateUpserts = (Inl flushErr, dc)"
    by (simp add: UpsertStates_def)
next
  fix withValues stateLocks toMakeAvailable dc1
  assume p: "processUpserts ss stateUpserts = Inr (withValues, stateLocks, toMakeAvailable)"
    and c: "checkResetInitUnFlushed dc = Inr dc1"
  show eq: "op_states (theUnFlushed (snd (UpsertStates ss dc stateUpserts))) =
           filter (\<lambda>existing. state_ID (swl_State existing) \<notin> set (map (state_ID \<circ> swl_State) withValues))
             (op_states (theUnFlushed dc)) @ withValues"
    using p c by (rule UpsertStates_overlay)
  {
    assume d: "distinct (map (state_ID \<circ> swl_State) withValues)
       \<and> distinct (map (state_ID \<circ> swl_State) (op_states (theUnFlushed dc)))"
    have "distinct (map (state_ID \<circ> swl_State)
          (filter (\<lambda>x. (state_ID \<circ> swl_State) x \<notin> set (map (state_ID \<circ> swl_State) withValues))
             (op_states (theUnFlushed dc)) @ withValues))"
      using d by (intro distinct_dedup_append) simp_all
    then show "distinct (map (state_ID \<circ> swl_State)
        (op_states (theUnFlushed (snd (UpsertStates ss dc stateUpserts)))))"
      unfolding eq by simp
  }
  {
    assume "\<not> distinct (map (state_ID \<circ> swl_State) withValues)"
    then show "\<not> distinct (map (state_ID \<circ> swl_State)
        (op_states (theUnFlushed (snd (UpsertStates ss dc stateUpserts)))))"
      unfolding eq by (rule not_distinct_append_new)
  }
qed

text \<open>
  A second upsert of "s1", with new data, together with a new state "s2", on the context
  that holds the first "s1" unflushed; and the same call with invalid data for "s2".
\<close>

theorem UpsertStates_last_write_wins_witness:
  "processUpserts sample_stateStore
       [\<lparr> upsert_ID = ''s1'', upsert_SchemaID = ''coin'', upsert_Data = ''abcd'', upsert_CreatedBy = None \<rparr>,
        \<lparr> upsert_ID = ''s2'', upsert_SchemaID = ''coin'', upsert_Data = ''x'', upsert_CreatedBy = None \<rparr>]
     = Inr ([sample_state ''s1'' ''abcd'', sample_state ''s2'' ''x''], [], [])
   \<and> checkResetInitUnFlushed sample_created = Inr sample_created
   \<and> op_states (theUnFlushed sample_created) = [sample_state ''s1'' ''abc'']
   \<and> op_states (theUnFlushed (snd (UpsertStates sample_stateStore sample_created
       [\<lparr> upsert_ID = ''s1'', upsert_SchemaID = ''coin'', upsert_Data = ''abcd'', upsert_CreatedBy = None \<rparr>,
        \<lparr> upsert_ID = ''s2'', upsert_SchemaID = ''coin'', upsert_Data = ''x'', upsert_CreatedBy = None \<rparr>])))
     = [sample_state ''s1'' ''abcd'', sample_state ''s2'' ''x'']
   \<and> distinct (map (state_ID \<circ> swl_State) (op_states (theUnFlushed (snd (UpsertStates sample_stateStore sample_created
       [\<lparr> upsert_ID = ''s1'', upsert_SchemaID = ''coin'', upsert_Data = ''abcd'', upsert_CreatedBy = None \<rparr>,
        \<lparr> upsert_ID = ''s2'', upsert_SchemaID = ''coin'', upsert_Data = ''x'', upsert_CreatedBy = None \<rparr>])))))
   \<and> processUpserts sample_stateStore
       [\<lparr> upsert_ID = ''s1'', upsert_SchemaID = ''coin'', upsert_Data = ''abcd'', upsert_CreatedBy = None \<rparr>,
        \<lparr> upsert_ID = ''s2'', upsert_SchemaID = ''coin'', upsert_Data = '''', upsert_CreatedBy = None \<rparr>]
     = Inl (CollaboratorError ''invalid state'')
   \<and> UpsertStates sample_stateStore sample_created
       [\<lparr> upsert_ID = ''s1'', upsert_SchemaID = ''coin'', upsert_Data = ''abcd'', upsert_CreatedBy = None \<rparr>,
        \<lparr> upsert_ID = ''s2'', upsert_SchemaID = ''coin'', upsert_Data = '''', upsert_CreatedBy = None \<rparr>]
     = (Inl (CollaboratorError ''invalid state''), sample_created)"
proof -
  let ?ups = "[\<lparr> upsert_ID = ''s1'', upsert_SchemaID = ''coin'', upsert_Data = ''abcd'', upsert_CreatedBy = None \<rparr>,
        \<lparr> upsert_ID = ''s2'', upsert_SchemaID = ''coin'', upsert_Data = ''x'', upsert_CreatedBy = None \<rparr>]"
  let ?bad = "[\<lparr> upsert_ID = ''s1'', upsert_SchemaID = ''coin'', upsert_Data = ''abcd'', upsert_CreatedBy = None \<rparr>,
        \<lparr> upsert_ID = ''s2'', upsert_SchemaID = ''coin'', upsert_Data = '''', upsert_CreatedBy = None \<rparr>]"
  have p: "processUpserts sample_stateStore ?ups
     = Inr ([sample_state ''s1'' ''abcd'', sample_state ''s2'' ''x''], [], [])"
    by (simp add: sample_stateStore_def sample_schema_def sample_state_def)
  have q: "processUpserts sample_stateStore ?bad = Inl (CollaboratorError ''invalid state'')"
    by (simp add: sample_stateStore_def sample_schema_def sample_state_def)
  have c: "checkResetInitUnFlushed sample_created = Inr sample_created"
    by (simp add: sample_created_eq checkResetInitUnFlushed_def)
  have u: "op_states (theUnFlushed sample_created) = [sample_state ''s1'' ''abc'']"
    by (simp add: sample_created_eq theUnFlushed_def)
  have d1: "distinct (map (state_ID \<circ> swl_State) [sample_state ''s1'' ''abcd'', sample_state ''s2'' ''x''])"
    by (simp add: sample_state_def)
  have d2: "distinct (map (state_ID \<circ> swl_State) (op_states (theUnFlushed sample_created)))"
    by (simp add: u)
  note t = UpsertStates_last_write_wins [of sample_stateStore ?ups sample_created]
  from t p c have e: "op_states (theUnFlushed (snd (UpsertStates sample_stateStore sample_created ?ups))) =
      filter (\<lambda>existing. state_ID (swl_State existing)
                 \<notin> set (map (state_ID \<circ> swl_State) [sample_state ''s1'' ''abcd'', sample_state ''s2'' ''x'']))
        (op_states (theUnFlushed sample_created)) @ [sample_state ''s1'' ''abcd'', sample_state ''s2'' ''x'']"
    by blast
  from t p c d1 d2 have d: "distinct (map (state_ID \<circ> swl_State)
      (op_states (theUnFlushed (snd (UpsertStates sample_stateStore sample_created ?ups)))))"
    by blast
  from UpsertStates_last_write_wins [of sample_stateStore ?bad sample_created] q
  have b: "UpsertStates sample_stateStore sample_created ?bad
      = (Inl (CollaboratorError ''invalid state''), sample_created)"
    by blast
  from e have e': "op_states (theUnFlushed (snd (UpsertStates sample_stateStore sample_created ?ups)))
     = [sample_state ''s1'' ''abcd'', sample_state ''s2'' ''x'']"
    by (simp add: u sample_state_def)
  show ?thesis
    using p c u e' d q b by simp
qed

text \<open>
  The claim as stated fails when one call carries the same id twice: the new entries are
  not compared with each other, and the unflushed list then holds "s1" twice.
\<close>

theorem UpsertStates_duplicate_counterexample:
  "\<not> distinct (map (state_ID \<circ> swl_State)
       (op_states (theUnFlushed (snd (UpsertStates sample_stateStore sample_context
          [\<lparr> upsert_ID = ''s1'', upsert_SchemaID = ''coin'', upsert_Data = ''abc'', upsert_CreatedBy = None \<rparr>,
           \<lparr> upsert_ID = ''s1'', upsert_SchemaID = ''coin'', upsert_Data = ''abc'', upsert_CreatedBy = None \<rparr>])))))"
  by (simp add: UpsertStates_def sample_stateStore_def sample_schema_def
      sample_context_def NewDomainContext_def checkResetInitUnFlushed_def theUnFlushed_def
      newWriteOp_def)

lemma UpsertNullifiers_passes:
  assumes "checkResetInitUnFlushed dc = Inr dc1"
  shows "UpsertNullifiers dc ns =
           (fst (attachNullifiers (creatingStates dc) ns),
            dc \<lparr> unFlushed := Some ((theUnFlushed dc) \<lparr> op_stateNullifiers :=
                                 op_stateNullifiers (theUnFlushed dc) @ ns \<rparr>),
                 creatingStates := snd (attachNullifiers (creatingStates dc) ns) \<rparr>)"
proof -
  have dc1: "dc1 = dc \<lparr> unFlushed := Some (theUnFlushed dc) \<rparr>"
    using assms by (rule checkResetInitUnFlushed_Inr)
  have t: "theUnFlushed dc1 = theUnFlushed dc"
    by (simp add: dc1 theUnFlushed_def)
  have c: "creatingStates dc1 = creatingStates dc"
    by (simp add: dc1)
  have "UpsertNullifiers dc ns =
           (fst (attachNullifiers (creatingStates dc) ns),
            dc1 \<lparr> unFlushed := Some ((theUnFlushed dc) \<lparr> op_stateNullifiers :=
                                 op_stateNullifiers (theUnFlushed dc) @ ns \<rparr>),
                  creatingStates := snd (attachNullifiers (creatingStates dc) ns) \<rparr>)"
    using assms by (simp add: UpsertNullifiers_def Let_def t c split: prod.splits)
  then show ?thesis
    by (simp add: dc1)
qed

lemma nullifierRejected_iff:
  "nullifierRejected cs n \<longleftrightarrow>
     map_of cs (nullifier_State n) = None
     \<or> (\<exists>c m. map_of cs (nullifier_State n) = Some c \<and> state_Nullifier (swl_State c) = Some m
            \<and> nullifier_ID m \<noteq> nullifier_ID n)"
  by (auto simp add: nullifierRejected_def split: option.splits)

lemma attachNullifiers_rejects:
  "nullifierRejected cs n \<Longrightarrow>
     attachNullifiers cs (n # ns) =
       (Some (case map_of cs (nullifier_State n) of
                None \<Rightarrow> MsgStateNullifierStateNotInCtx (nullifier_State n) (nullifier_ID n)
              | Some c \<Rightarrow> MsgStateNullifierConflict (nullifier_State n)
                            (nullifier_ID (the (state_Nullifier (swl_State c))))), cs)"
  by (auto simp add: nullifierRejected_def split: option.splits)

lemma attachNullifiers_accepts:
  "\<not> nullifierRejected cs a \<Longrightarrow> \<exists>cs'. \<forall>ns. attachNullifiers cs (a # ns) = attachNullifiers cs' ns"
  by (auto simp add: nullifierRejected_def split: option.splits)

lemma attachNullifiers_first_rejected:
  "fst (attachNullifiers cs ns) \<noteq> None \<Longrightarrow>
     \<exists>pre n post. ns = pre @ n # post \<and> fst (attachNullifiers cs pre) = None
        \<and> nullifierRejected (snd (attachNullifiers cs pre)) n
        \<and> attachNullifiers cs ns = attachNullifiers (snd (attachNullifiers cs pre)) [n]"
proof (induction ns arbitrary: cs)
  case Nil
  then show ?case by simp
next
  case (Cons a ns)
  show ?case
  proof (cases "nullifierRejected cs a")
    case True
    from attachNullifiers_rejects [OF True, of ns] attachNullifiers_rejects [OF True, of "[]"]
    have "attachNullifiers cs (a # ns) = attachNullifiers cs [a]"
      by (simp only:)
    with True have "a # ns = [] @ a # ns \<and> fst (attachNullifiers cs []) = None
        \<and> nullifierRejected (snd (attachNullifiers cs [])) a
        \<and> attachNullifiers cs (a # ns) = attachNullifiers (snd (attachNullifiers cs [])) [a]"
      by (simp del: attachNullifiers.simps(2))
    then show ?thesis by blast
  next
    case False
    then obtain cs' where step: "\<And>ms. attachNullifiers cs (a # ms) = attachNullifiers cs' ms"
      using attachNullifiers_accepts by blast
    from Cons.prems have "fst (attachNullifiers cs' ns) \<noteq> None"
      unfolding step .
    from Cons.IH [OF this] obtain pre n post where
      s: "ns = pre @ n # post" and p: "fst (attachNullifiers cs' pre) = None"
      and r: "nullifierRejected (snd (attachNullifiers cs' pre)) n"
      and e: "attachNullifiers cs' ns = attachNullifiers (snd (attachNullifiers cs' pre)) [n]"
      by blast
    have "a # ns = (a # pre) @ n # post \<and> fst (attachNullifiers cs (a # pre)) = None
        \<and> nullifierRejected (snd (attachNullifiers cs (a # pre))) n
        \<and> attachNullifiers cs (a # ns) = attachNullifiers (snd (attachNullifiers cs (a # pre))) [n]"
      unfolding step using s p r e by simp
    then show ?thesis by blast
  qed
qed

lemma fold_update_other:
  "k \<notin> f ` set xs \<Longrightarrow> map_of (fold (\<lambda>s cs. AList.update (f s) s cs) xs cs) k = map_of cs k"
  by (induction xs arbitrary: cs) (auto simp add: update_conv')

lemma fold_update_new:
  "k \<in> f ` set xs \<Longrightarrow>
     \<exists>v \<in> set xs. f v = k \<and> map_of (fold (\<lambda>s cs. AList.update (f s) s cs) xs cs) k = Some v"
proof (induction xs arbitrary: cs)
  case Nil
  then show ?case by simp
next
  case (Cons x xs)
  show ?case
  proof (cases "k \<in> f ` set xs")
    case True
    from Cons.IH [OF True, of "AList.update (f x) x cs"] show ?thesis
      by auto
  next
    case False
    with Cons.prems have k: "k = f x" by auto
    have "map_of (fold (\<lambda>s cs. AList.update (f s) s cs) (x # xs) cs) k = Some x"
      using fold_update_other [OF False, of "AList.update (f x) x cs"]
      by (simp add: k update_conv')
    with k show ?thesis by auto
  qed
qed

lemma UpsertStates_creating:
  assumes "processUpserts ss stateUpserts = Inr (withValues, stateLocks, toMakeAvailable)"
    and "checkResetInitUnFlushed dc = Inr dc1"
  shows "creatingStates (snd (UpsertStates ss dc stateUpserts)) =
           fold (\<lambda>s cs. AList.update (state_ID (swl_State s)) s cs) toMakeAvailable (creatingStates dc)"
proof -
  have dc1: "dc1 = dc \<lparr> unFlushed := Some (theUnFlushed dc) \<rparr>"
    using assms(2) by (rule checkResetInitUnFlushed_Inr)
  show ?thesis
    unfolding UpsertStates_snd [OF assms] addStateLocks_keeps by (simp add: dc1)
qed

lemma UpsertNullifiers_snd_fields:
  assumes "checkResetInitUnFlushed dc = Inr dc1"
  shows "creatingStates (snd (UpsertNullifiers dc ns)) = snd (attachNullifiers (creatingStates dc) ns)"
    and "fst (UpsertNullifiers dc ns) = fst (attachNullifiers (creatingStates dc) ns)"
  unfolding UpsertNullifiers_passes [OF assms] by simp_all

text \<open>
  Claim C4, as the code has it. On a context that is closed or awaits a reset the call
  fails with that error and changes nothing. Otherwise it fails exactly when, for some
  supplied nullifier, the state is not in the creating map or its entry there carries a
  nullifier with another id, or when two supplied nullifiers for one state have different
  ids (the earlier one is attached by the time the later one is looked at). Within the
  call, a nullifier attached to an entry of the creating map never gives way to one with
  another id, and after a successful call every supplied nullifier's id is the one
  attached to its state. The call does not undo its writes when it fails: the supplied
  nullifiers, all of them, have been appended to the unflushed write list before the
  first one is checked, and the creating map is left as the successful call with the
  nullifiers before the rejected one leaves it, each of those attached to its state; the
  error names the rejected nullifier's state.

  Across calls the ids attached to one state are not bounded by this: \<^verbatim>\<open>UpsertStates\<close>
  with a create-lock puts the new state, as \<^verbatim>\<open>ProcessState\<close> made it, into the creating
  map in place of the entry of that id, whatever nullifier the entry carried.
\<close>

theorem UpsertNullifiers_outcome:
  fixes dc :: "'v domainContext" and ss :: "('v, 'k) stateStore"
  shows
  "(\<forall>err. checkResetInitUnFlushed dc = Inl err \<longrightarrow> UpsertNullifiers dc ns = (Some err, dc))
   \<and> (\<forall>dc1. checkResetInitUnFlushed dc = Inr dc1 \<longrightarrow>
        (fst (UpsertNullifiers dc ns) \<noteq> None \<longleftrightarrow>
           (\<exists>n \<in> set ns. map_of (creatingStates dc) (nullifier_State n) = None
               \<or> (\<exists>c m. map_of (creatingStates dc) (nullifier_State n) = Some c
                     \<and> state_Nullifier (swl_State c) = Some m
                     \<and> nullifier_ID m \<noteq> nullifier_ID n))
           \<or> (\<exists>n \<in> set ns. \<exists>n' \<in> set ns. nullifier_State n = nullifier_State n'
                  \<and> nullifier_ID n \<noteq> nullifier_ID n'))
        \<and> (\<forall>k c m. map_of (creatingStates dc) k = Some c \<and> state_Nullifier (swl_State c) = Some m \<longrightarrow>
              (\<exists>c' m'. map_of (creatingStates (snd (UpsertNullifiers dc ns))) k = Some c'
                  \<and> state_Nullifier (swl_State c') = Some m' \<and> nullifier_ID m' = nullifier_ID m))
        \<and> (fst (UpsertNullifiers dc ns) = None \<longrightarrow>
              (\<forall>n \<in> set ns. \<exists>c' m'.
                  map_of (creatingStates (snd (UpsertNullifiers dc ns))) (nullifier_State n) = Some c'
                  \<and> state_Nullifier (swl_State c') = Some m' \<and> nullifier_ID m' = nullifier_ID n))
        \<and> (fst (UpsertNullifiers dc ns) \<noteq> None \<longrightarrow>
              (\<exists>pre n post. ns = pre @ n # post
                  \<and> fst (UpsertNullifiers dc pre) = None
                  \<and> creatingStates (snd (UpsertNullifiers dc ns))
                      = creatingStates (snd (UpsertNullifiers dc pre))
                  \<and> (\<forall>p \<in> set pre. \<exists>c' m'.
                        map_of (creatingStates (snd (UpsertNullifiers dc ns))) (nullifier_State p) = Some c'
                        \<and> state_Nullifier (swl_State c') = Some m' \<and> nullifier_ID m' = nullifier_ID p)
                  \<and> (case map_of (creatingStates (snd (UpsertNullifiers dc pre))) (nullifier_State n) of
                        None \<Rightarrow> fst (UpsertNullifiers dc ns)
                                  = Some (MsgStateNullifierStateNotInCtx (nullifier_State n) (nullifier_ID n))
                      | Some c \<Rightarrow> (\<exists>m. state_Nullifier (swl_State c) = Some m
                                  \<and> nullifier_ID m \<noteq> nullifier_ID n
                                  \<and> fst (UpsertNullifiers dc ns)
                                      = Some (MsgStateNullifierConflict (nullifier_State n) (nullifier_ID m))))))
        \<and> map fst (creatingStates (snd (UpsertNullifiers dc ns))) = map fst (creatingStates dc)
        \<and> op_stateNullifiers (theUnFlushed (snd (UpsertNullifiers dc ns)))
            = op_stateNullifiers (theUnFlushed dc) @ ns
        \<and> (\<forall>withValues stateLocks toMakeAvailable. \<forall>vs \<in> set toMakeAvailable.
              processUpserts ss stateUpserts = Inr (withValues, stateLocks, toMakeAvailable) \<longrightarrow>
              (\<exists>vs' \<in> set toMakeAvailable. state_ID (swl_State vs') = state_ID (swl_State vs)
                  \<and> map_of (creatingStates (snd (UpsertStates ss dc stateUpserts)))
                       (state_ID (swl_State vs)) = Some vs')))"
proof (intro conjI allI impI ballI)
  fix err
  assume "checkResetInitUnFlushed dc = Inl err"
  then show "UpsertNullifiers dc ns = (Some err, dc)"
    by (simp add: UpsertNullifiers_def)
next
  fix dc1
  assume pass: "checkResetInitUnFlushed dc = Inr dc1"
  note eq = UpsertNullifiers_passes [OF pass, of ns]
  show "fst (UpsertNullifiers dc ns) \<noteq> None \<longleftrightarrow>
           (\<exists>n \<in> set ns. map_of (creatingStates dc) (nullifier_State n) = None
               \<or> (\<exists>c m. map_of (creatingStates dc) (nullifier_State n) = Some c
                     \<and> state_Nullifier (swl_State c) = Some m
                     \<and> nullifier_ID m \<noteq> nullifier_ID n))
           \<or> (\<exists>n \<in> set ns. \<exists>n' \<in> set ns. nullifier_State n = nullifier_State n'
                  \<and> nullifier_ID n \<noteq> nullifier_ID n')"
    unfolding eq fst_conv attachNullifiers_fails_iff nullifierRejected_iff ..
  show "map fst (creatingStates (snd (UpsertNullifiers dc ns))) = map fst (creatingStates dc)"
    unfolding eq by (simp add: attachNullifiers_keys)
  show "op_stateNullifiers (theUnFlushed (snd (UpsertNullifiers dc ns)))
            = op_stateNullifiers (theUnFlushed dc) @ ns"
    unfolding eq by (simp add: theUnFlushed_def)
next
  fix dc1 k c m
  assume pass: "checkResetInitUnFlushed dc = Inr dc1"
    and "map_of (creatingStates dc) k = Some c \<and> state_Nullifier (swl_State c) = Some m"
  then show "\<exists>c' m'. map_of (creatingStates (snd (UpsertNullifiers dc ns))) k = Some c'
                  \<and> state_Nullifier (swl_State c') = Some m' \<and> nullifier_ID m' = nullifier_ID m"
    unfolding UpsertNullifiers_passes [OF pass, of ns]
    using attachNullifiers_keeps_id [of "creatingStates dc" k c m ns] by simp
next
  fix dc1 n
  assume pass: "checkResetInitUnFlushed dc = Inr dc1"
    and "fst (UpsertNullifiers dc ns) = None" "n \<in> set ns"
  then show "\<exists>c' m'.
                  map_of (creatingStates (snd (UpsertNullifiers dc ns))) (nullifier_State n) = Some c'
                  \<and> state_Nullifier (swl_State c') = Some m' \<and> nullifier_ID m' = nullifier_ID n"
    unfolding UpsertNullifiers_passes [OF pass, of ns]
    using attachNullifiers_attached [of "creatingStates dc" ns n] by simp
next
  fix dc1
  assume pass: "checkResetInitUnFlushed dc = Inr dc1"
    and fails: "fst (UpsertNullifiers dc ns) \<noteq> None"
  let ?cs = "creatingStates dc"
  note f = UpsertNullifiers_snd_fields [OF pass]
  from fails have "fst (attachNullifiers ?cs ns) \<noteq> None"
    by (simp add: f)
  from attachNullifiers_first_rejected [OF this] obtain pre n post where
    s: "ns = pre @ n # post" and p: "fst (attachNullifiers ?cs pre) = None"
    and r: "nullifierRejected (snd (attachNullifiers ?cs pre)) n"
    and e: "attachNullifiers ?cs ns = attachNullifiers (snd (attachNullifiers ?cs pre)) [n]"
    by blast
  let ?pre = "snd (attachNullifiers ?cs pre)"
  have e': "attachNullifiers ?cs ns =
       (Some (case map_of ?pre (nullifier_State n) of
                None \<Rightarrow> MsgStateNullifierStateNotInCtx (nullifier_State n) (nullifier_ID n)
              | Some c \<Rightarrow> MsgStateNullifierConflict (nullifier_State n)
                            (nullifier_ID (the (state_Nullifier (swl_State c))))), ?pre)"
    unfolding e using r by (rule attachNullifiers_rejects)
  have 1: "fst (UpsertNullifiers dc pre) = None"
    using p by (simp add: f)
  have 2: "creatingStates (snd (UpsertNullifiers dc ns)) = creatingStates (snd (UpsertNullifiers dc pre))"
    by (simp add: f e')
  have 3: "\<forall>p \<in> set pre. \<exists>c' m'.
        map_of (creatingStates (snd (UpsertNullifiers dc ns))) (nullifier_State p) = Some c'
        \<and> state_Nullifier (swl_State c') = Some m' \<and> nullifier_ID m' = nullifier_ID p"
    unfolding f(1) e' snd_conv using attachNullifiers_attached [OF p] by blast
  have 4: "case map_of (creatingStates (snd (UpsertNullifiers dc pre))) (nullifier_State n) of
        None \<Rightarrow> fst (UpsertNullifiers dc ns)
                  = Some (MsgStateNullifierStateNotInCtx (nullifier_State n) (nullifier_ID n))
      | Some c \<Rightarrow> (\<exists>m. state_Nullifier (swl_State c) = Some m
                  \<and> nullifier_ID m \<noteq> nullifier_ID n
                  \<and> fst (UpsertNullifiers dc ns)
                      = Some (MsgStateNullifierConflict (nullifier_State n) (nullifier_ID m)))"
    using r unfolding f e' by (auto simp add: nullifierRejected_def split: option.splits)
  show "\<exists>pre n post. ns = pre @ n # post
          \<and> fst (UpsertNullifiers dc pre) = None
          \<and> creatingStates (snd (UpsertNullifiers dc ns))
              = creatingStates (snd (UpsertNullifiers dc pre))
          \<and> (\<forall>p \<in> set pre. \<exists>c' m'.
                map_of (creatingStates (snd (UpsertNullifiers dc ns))) (nullifier_State p) = Some c'
                \<and> state_Nullifier (swl_State c') = Some m' \<and> nullifier_ID m' = nullifier_ID p)
          \<and> (case map_of (creatingStates (snd (UpsertNullifiers dc pre))) (nullifier_State n) of
                None \<Rightarrow> fst (UpsertNullifiers dc ns)
                          = Some (MsgStateNullifierStateNotInCtx (nullifier_State n) (nullifier_ID n))
              | Some c \<Rightarrow> (\<exists>m. state_Nullifier (swl_State c) = Some m
                          \<and> nullifier_ID m \<noteq> nullifier_ID n
                          \<and> fst (UpsertNullifiers dc ns)
                              = Some (MsgStateNullifierConflict (nullifier_State n) (nullifier_ID m))))"
    using s 1 2 3 4 by blast
next
  fix dc1 withValues stateLocks toMakeAvailable vs
  assume pass: "checkResetInitUnFlushed dc = Inr dc1"
    and vs: "vs \<in> set toMakeAvailable"
    and p: "processUpserts ss stateUpserts = Inr (withValues, stateLocks, toMakeAvailable)"
  from vs have "state_ID (swl_State vs) \<in> (\<lambda>s. state_ID (swl_State s)) ` set toMakeAvailable"
    by blast
  from fold_update_new [OF this, of "creatingStates dc"]
  show "\<exists>vs' \<in> set toMakeAvailable. state_ID (swl_State vs') = state_ID (swl_State vs)
          \<and> map_of (creatingStates (snd (UpsertStates ss dc stateUpserts)))
               (state_ID (swl_State vs)) = Some vs'"
    unfolding UpsertStates_creating [OF p pass] .
qed


text \<open>
  The sample context after the nullifier "n1" has been attached to "s1", and after "s1"
  has then been upserted again by transaction 7.
\<close>

definition sample_nullified :: "int domainContext" where
  "sample_nullified =
     snd (UpsertNullifiers sample_created [\<lparr> nullifier_ID = ''n1'', nullifier_State = ''s1'' \<rparr>])"

definition sample_reupserted :: "int domainContext" where
  "sample_reupserted =
     snd (UpsertStates sample_stateStore sample_nullified
            [\<lparr> upsert_ID = ''s1'', upsert_SchemaID = ''coin'', upsert_Data = ''abc'',
               upsert_CreatedBy = Some 7 \<rparr>])"

theorem UpsertNullifiers_outcome_witness:
  "checkResetInitUnFlushed (sample_created \<lparr> closed := True \<rparr>) = Inl MsgStateDomainContextClosed
   \<and> UpsertNullifiers (sample_created \<lparr> closed := True \<rparr>)
         [\<lparr> nullifier_ID = ''n1'', nullifier_State = ''s1'' \<rparr>]
       = (Some MsgStateDomainContextClosed, sample_created \<lparr> closed := True \<rparr>)
   \<and> checkResetInitUnFlushed sample_created = Inr sample_created
   \<and> fst (UpsertNullifiers sample_created [\<lparr> nullifier_ID = ''n1'', nullifier_State = ''s1'' \<rparr>]) = None
   \<and> op_stateNullifiers (theUnFlushed (snd (UpsertNullifiers sample_created
         [\<lparr> nullifier_ID = ''n1'', nullifier_State = ''s1'' \<rparr>])))
       = [\<lparr> nullifier_ID = ''n1'', nullifier_State = ''s1'' \<rparr>]"
proof -
  let ?n = "\<lparr> nullifier_ID = ''n1'', nullifier_State = ''s1'' \<rparr>"
  have c1: "checkResetInitUnFlushed (sample_created \<lparr> closed := True \<rparr>) = Inl MsgStateDomainContextClosed"
    by (simp add: checkResetInitUnFlushed_def)
  have c2: "checkResetInitUnFlushed sample_created = Inr sample_created"
    by (simp add: sample_created_eq checkResetInitUnFlushed_def)
  have cs: "creatingStates sample_created = [(''s1'', sample_state ''s1'' ''abc'')]"
    and u: "op_stateNullifiers (theUnFlushed sample_created) = []"
    by (simp_all add: sample_created_eq theUnFlushed_def)
  from UpsertNullifiers_outcome [where dc = "sample_created \<lparr> closed := True \<rparr>" and ns = "[?n]"
      and ss = sample_stateStore and stateUpserts = "[]"] c1
  have a: "UpsertNullifiers (sample_created \<lparr> closed := True \<rparr>) [?n]
       = (Some MsgStateDomainContextClosed, sample_created \<lparr> closed := True \<rparr>)"
    by blast
  from UpsertNullifiers_outcome [where dc = sample_created and ns = "[?n]"
      and ss = sample_stateStore and stateUpserts = "[]"] c2
  have b: "fst (UpsertNullifiers sample_created [?n]) \<noteq> None \<longleftrightarrow>
           (\<exists>n \<in> set [?n]. map_of (creatingStates sample_created) (nullifier_State n) = None
               \<or> (\<exists>c m. map_of (creatingStates sample_created) (nullifier_State n) = Some c
                     \<and> state_Nullifier (swl_State c) = Some m
                     \<and> nullifier_ID m \<noteq> nullifier_ID n))
           \<or> (\<exists>n \<in> set [?n]. \<exists>n' \<in> set [?n]. nullifier_State n = nullifier_State n'
                  \<and> nullifier_ID n \<noteq> nullifier_ID n')"
    and c: "op_stateNullifiers (theUnFlushed (snd (UpsertNullifiers sample_created [?n])))
            = op_stateNullifiers (theUnFlushed sample_created) @ [?n]"
    by blast+
  from b have b': "fst (UpsertNullifiers sample_created [?n]) = None"
    by (simp add: cs sample_state_def)
  show ?thesis
    using c1 a c2 b' c by (simp add: u)
qed

lemma sample_nullified_eq:
  "sample_nullified =
     \<lparr> dc_id = 1, domainName = ''zeto'', contractAddress = ''0xaa'',
       unFlushed = Some \<lparr> op_states = [sample_state ''s1'' ''abc''],
                          op_stateNullifiers = [\<lparr> nullifier_ID = ''n1'', nullifier_State = ''s1'' \<rparr>],
                          op_flushed = False, op_flushResult = None \<rparr>,
       flushing = None, closed = False,
       creatingStates = [(''s1'', (sample_state ''s1'' ''abc'')
          \<lparr> swl_State := (swl_State (sample_state ''s1'' ''abc''))
               \<lparr> state_Nullifier := Some \<lparr> nullifier_ID = ''n1'', nullifier_State = ''s1'' \<rparr> \<rparr> \<rparr>)],
       txLocks = [\<lparr> lock_State = ''s1'', lock_Transaction = 7, lock_Type = StateLockTypeCreate \<rparr>] \<rparr>"
  by (simp add: sample_nullified_def sample_created_eq UpsertNullifiers_def checkResetInitUnFlushed_def
      theUnFlushed_def sample_state_def)

lemma sample_reupserted_eq:
  "sample_reupserted =
     \<lparr> dc_id = 1, domainName = ''zeto'', contractAddress = ''0xaa'',
       unFlushed = Some \<lparr> op_states = [sample_state ''s1'' ''abc''],
                          op_stateNullifiers = [\<lparr> nullifier_ID = ''n1'', nullifier_State = ''s1'' \<rparr>],
                          op_flushed = False, op_flushResult = None \<rparr>,
       flushing = None, closed = False,
       creatingStates = [(''s1'', sample_state ''s1'' ''abc'')],
       txLocks = [\<lparr> lock_State = ''s1'', lock_Transaction = 7, lock_Type = StateLockTypeCreate \<rparr>,
                  \<lparr> lock_State = ''s1'', lock_Transaction = 7, lock_Type = StateLockTypeCreate \<rparr>] \<rparr>"
  by (simp add: sample_reupserted_def sample_nullified_eq UpsertStates_def sample_stateStore_def
      sample_schema_def checkResetInitUnFlushed_def theUnFlushed_def sample_state_def)

text \<open>
  The claim as stated fails. The nullifier for "zz", a state that is not in the creating
  map, makes the call fail, yet both supplied nullifiers are in the unflushed write list
  afterwards and the first one is attached to "s1" in the creating map. And a state is
  not held to one nullifier: once "s1", which carries "n1", has been upserted again, the
  nullifier "n9" is accepted for it, and the unflushed write list holds both.
\<close>

theorem UpsertNullifiers_mutates_counterexample:
  "fst (UpsertNullifiers sample_created
         [\<lparr> nullifier_ID = ''n1'', nullifier_State = ''s1'' \<rparr>,
          \<lparr> nullifier_ID = ''n2'', nullifier_State = ''zz'' \<rparr>])
     = Some (MsgStateNullifierStateNotInCtx ''zz'' ''n2'')
   \<and> op_stateNullifiers (theUnFlushed sample_created) = []
   \<and> op_stateNullifiers (theUnFlushed (snd (UpsertNullifiers sample_created
         [\<lparr> nullifier_ID = ''n1'', nullifier_State = ''s1'' \<rparr>,
          \<lparr> nullifier_ID = ''n2'', nullifier_State = ''zz'' \<rparr>])))
     = [\<lparr> nullifier_ID = ''n1'', nullifier_State = ''s1'' \<rparr>,
        \<lparr> nullifier_ID = ''n2'', nullifier_State = ''zz'' \<rparr>]
   \<and> map (state_Nullifier \<circ> swl_State \<circ> snd) (creatingStates sample_created) = [None]
   \<and> map (state_Nullifier \<circ> swl_State \<circ> snd) (creatingStates (snd (UpsertNullifiers sample_created
         [\<lparr> nullifier_ID = ''n1'', nullifier_State = ''s1'' \<rparr>,
          \<lparr> nullifier_ID = ''n2'', nullifier_State = ''zz'' \<rparr>])))
     = [Some \<lparr> nullifier_ID = ''n1'', nullifier_State = ''s1'' \<rparr>]
   \<and> map (state_Nullifier \<circ> swl_State \<circ> snd) (creatingStates sample_nullified)
     = [Some \<lparr> nullifier_ID = ''n1'', nullifier_State = ''s1'' \<rparr>]
   \<and> fst (UpsertNullifiers sample_reupserted [\<lparr> nullifier_ID = ''n9'', nullifier_State = ''s1'' \<rparr>]) = None
   \<and> map (state_Nullifier \<circ> swl_State \<circ> snd) (creatingStates (snd (UpsertNullifiers sample_reupserted
         [\<lparr> nullifier_ID = ''n9'', nullifier_State = ''s1'' \<rparr>])))
     = [Some \<lparr> nullifier_ID = ''n9'', nullifier_State = ''s1'' \<rparr>]
   \<and> op_stateNullifiers (theUnFlushed (snd (UpsertNullifiers sample_reupserted
         [\<lparr> nullifier_ID = ''n9'', nullifier_State = ''s1'' \<rparr>])))
     = [\<lparr> nullifier_ID = ''n1'', nullifier_State = ''s1'' \<rparr>,
        \<lparr> nullifier_ID = ''n9'', nullifier_State = ''s1'' \<rparr>]"
  by (simp add: sample_created_eq sample_nullified_eq sample_reupserted_eq UpsertNullifiers_def
      checkResetInitUnFlushed_def theUnFlushed_def sample_state_def)

subsection \<open>Sequences of calls on one context\<close>

text \<open>
  The calls a context receives, and the end of the flush routine, as one type, so that
  "every later call" can be said. \<open>invoke\<close> gives the error a call returns (\<open>None\<close> for
  success, and for the methods that return no error) and the context it leaves.
\<close>

datatype ('v, 'k) dc_call =
    CallUpsertStates "StateUpsert list"
  | CallUpsertNullifiers "StateNullifier list"
  | CallAddStateLocks "StateLock list"
  | CallFindAvailableStates Bytes32 "('v, 'k) QueryJSON"
  | CallFindAvailableNullifiers Bytes32 "('v, 'k) QueryJSON"
  | CallClearTransactions "UUID list"
  | CallInitiateFlush flush_wait
  | CallReset flush_wait
  | FlushRoutineEnds "dc_error option"

definition errorOf :: "('e + 'a) \<times> 'c \<Rightarrow> 'e option \<times> 'c" where
  "errorOf r = (case r of (Inl err, c) \<Rightarrow> (Some err, c) | (Inr x, c) \<Rightarrow> (None, c))"

fun invoke ::
  "('v, 'k::linorder) stateStore \<Rightarrow> ('v, 'k) dc_call \<Rightarrow> 'v domainContext
     \<Rightarrow> dc_error option \<times> 'v domainContext"
where
  "invoke ss (CallUpsertStates stateUpserts) dc = errorOf (UpsertStates ss dc stateUpserts)"
| "invoke ss (CallUpsertNullifiers nullifiers) dc = UpsertNullifiers dc nullifiers"
| "invoke ss (CallAddStateLocks locks) dc = AddStateLocks dc locks"
| "invoke ss (CallFindAvailableStates schemaID query) dc = errorOf (FindAvailableStates ss dc schemaID query)"
| "invoke ss (CallFindAvailableNullifiers schemaID query) dc =
     errorOf (FindAvailableNullifiers ss dc schemaID query)"
| "invoke ss (CallClearTransactions transactions) dc = (None, ClearTransactions dc transactions)"
| "invoke ss (CallInitiateFlush wait) dc = InitiateFlush wait dc"
| "invoke ss (CallReset wait) dc = (None, snd (Reset wait dc))"
| "invoke ss (FlushRoutineEnds flushResult) dc = (None, doFlush flushResult dc)"

definition after :: "('v, 'k::linorder) stateStore \<Rightarrow> ('v, 'k) dc_call list \<Rightarrow> 'v domainContext \<Rightarrow> 'v domainContext" where
  "after ss calls dc = fold (\<lambda>c d. snd (invoke ss c d)) calls dc"

text \<open>
  The five methods that start with \<open>checkResetInitUnFlushed\<close>. \<^verbatim>\<open>UpsertStates\<close> validates
  its upserts against their schemas before it takes the mutex and checks the context, so
  it counts here when its upserts are valid.
\<close>

fun checksContext :: "('v, 'k) stateStore \<Rightarrow> ('v, 'k) dc_call \<Rightarrow> bool" where
  "checksContext ss (CallUpsertStates stateUpserts) =
     (case processUpserts ss stateUpserts of Inl err \<Rightarrow> False | Inr r \<Rightarrow> True)"
| "checksContext ss (CallUpsertNullifiers nullifiers) = True"
| "checksContext ss (CallAddStateLocks locks) = True"
| "checksContext ss (CallFindAvailableStates schemaID query) = True"
| "checksContext ss (CallFindAvailableNullifiers schemaID query) = True"
| "checksContext ss c = False"




fun isGuarded :: "('v, 'k) dc_call \<Rightarrow> bool" where
  "isGuarded (CallUpsertStates stateUpserts) = True"
| "isGuarded (CallUpsertNullifiers nullifiers) = True"
| "isGuarded (CallAddStateLocks locks) = True"
| "isGuarded (CallFindAvailableStates schemaID query) = True"
| "isGuarded (CallFindAvailableNullifiers schemaID query) = True"
| "isGuarded c = False"


definition sample_query :: "(int, int) QueryJSON" where
  "sample_query = \<lparr> q_EvalQuery = (\<lambda>v. Inr (0 < v)), q_SortKey = (\<lambda>v. v), q_SortError = None,
                    q_Limit = Some 10 \<rparr>"



subsection \<open>Flush failure, reset and close\<close>


lemma checksContext_fails:
  "checksContext ss c \<Longrightarrow> checkResetInitUnFlushed dc = Inl err \<Longrightarrow> invoke ss c dc = (Some err, dc)"
  by (cases c)
     (auto simp add: errorOf_def UpsertStates_def UpsertNullifiers_def AddStateLocks_def
        FindAvailableStates_def FindAvailableNullifiers_def getUnFlushedStates_def
        split: sum.splits)

text \<open>What no call but \<open>Reset\<close> and the flush routine changes: whether the context is closed, and the flush in progress.\<close>

lemma mergeUnFlushedApplyLocks_keeps:
  "closed (snd (mergeUnFlushedApplyLocks dc schema dbStates query rn)) = closed dc"
  "flushing (snd (mergeUnFlushedApplyLocks dc schema dbStates query rn)) = flushing dc"
  by (auto simp add: mergeUnFlushedApplyLocks_def split: sum.splits dest!: checkResetInitUnFlushed_Inr)

lemma snd_errorOf: "snd (errorOf r) = snd r"
  by (cases r; cases "fst r") (auto simp add: errorOf_def)

lemma invoke_keeps_closed: "closed (snd (invoke ss c dc)) = closed dc"
proof (cases c)
  case (CallUpsertStates ups)
  show ?thesis
  proof (cases "processUpserts ss ups")
    case (Inl e)
    then show ?thesis by (simp add: CallUpsertStates errorOf_def UpsertStates_def)
  next
    case (Inr r)
    obtain wv sl av where r: "r = (wv, sl, av)" by (cases r) auto
    show ?thesis
    proof (cases "checkResetInitUnFlushed dc")
      case (Inl e)
      with Inr show ?thesis by (simp add: CallUpsertStates errorOf_def UpsertStates_def r)
    next
      case (Inr dc1)
      have "closed (snd (UpsertStates ss dc ups)) = closed dc"
        unfolding UpsertStates_snd [OF \<open>processUpserts ss ups = Inr r\<close> [unfolded r] Inr] addStateLocks_keeps
        using checkResetInitUnFlushed_Inr [OF Inr] by simp
      then show ?thesis
        by (simp add: CallUpsertStates snd_errorOf)
    qed
  qed
next
  case (CallUpsertNullifiers ns)
  then show ?thesis
    by (cases "checkResetInitUnFlushed dc")
       (simp_all add: UpsertNullifiers_passes, simp add: UpsertNullifiers_def)
next
  case (CallAddStateLocks locks)
  then show ?thesis
    by (cases "checkResetInitUnFlushed dc")
       (auto simp add: AddStateLocks_def addStateLocks_keeps dest!: checkResetInitUnFlushed_Inr)
next
  case (CallFindAvailableStates schemaID query)
  then show ?thesis
    by (auto simp add: errorOf_def FindAvailableStates_def getUnFlushedStates_def
        split: sum.splits prod.splits dest!: checkResetInitUnFlushed_Inr
        dest: arg_cong [where f = "\<lambda>p. closed (snd p)"] simp: mergeUnFlushedApplyLocks_keeps)
next
  case (CallFindAvailableNullifiers schemaID query)
  then show ?thesis
    by (auto simp add: errorOf_def FindAvailableNullifiers_def getUnFlushedStates_def
        split: sum.splits prod.splits dest!: checkResetInitUnFlushed_Inr
        dest: arg_cong [where f = "\<lambda>p. closed (snd p)"] simp: mergeUnFlushedApplyLocks_keeps)
next
  case (CallClearTransactions txs)
  then show ?thesis by (simp add: ClearTransactions_alt)
next
  case (CallInitiateFlush w)
  then show ?thesis
    by (auto simp add: InitiateFlush_def clearExistingFlush_def split: option.splits flush_wait.splits prod.splits if_splits)
next
  case (CallReset w)
  then show ?thesis
    by (auto simp add: Reset_def clearExistingFlush_def split: option.splits flush_wait.splits prod.splits if_splits)
next
  case (FlushRoutineEnds r)
  then show ?thesis
    by (simp add: doFlush_def split: option.splits)
qed





lemma after_keeps_closed: "closed (after ss calls dc) = closed dc"
  by (induction calls arbitrary: dc) (simp_all add: after_def invoke_keeps_closed)


lemma Reset_fields:
  "unFlushed (snd (Reset w dc)) = None" "flushing (snd (Reset w dc)) = None"
  "creatingStates (snd (Reset w dc)) = []" "txLocks (snd (Reset w dc)) = []"
  "closed (snd (Reset w dc)) = closed dc"
  by (auto simp add: Reset_def clearExistingFlush_def split: prod.splits option.splits flush_wait.splits if_splits)

lemma isGuarded_fails:
  "isGuarded c \<Longrightarrow> checkResetInitUnFlushed dc = Inl err
   \<Longrightarrow> \<exists>err'. invoke ss c dc = (Some err', dc)"
  by (cases c)
     (auto simp add: errorOf_def UpsertStates_def UpsertNullifiers_def AddStateLocks_def
        FindAvailableStates_def FindAvailableNullifiers_def getUnFlushedStates_def
        split: sum.splits)














text \<open>
  Claim C8, as the code has it. \<^verbatim>\<open>Close\<close> takes the context's id out of the registry, so
  \<^verbatim>\<open>GetDomainContext\<close> finds nothing under it, and marks the context closed. After any
  later calls, each of \<^verbatim>\<open>UpsertStates\<close>, \<^verbatim>\<open>UpsertNullifiers\<close>, \<^verbatim>\<open>AddStateLocks\<close>,
  \<^verbatim>\<open>FindAvailableStates\<close> and \<^verbatim>\<open>FindAvailableNullifiers\<close> fails and leaves the context as
  it is, with the "closed" error (for \<^verbatim>\<open>UpsertStates\<close>, once its upserts pass the schema
  validation that runs first). The other methods do not look at the closed flag.
\<close>

theorem Close_effect:
  fixes dc :: "'v domainContext" and ss :: "('v, 'k::linorder) stateStore"
  shows "GetDomainContext (fst (Close sm dc)) (dc_id dc) = None
       \<and> closed (snd (Close sm dc))
       \<and> (isGuarded c \<longrightarrow>
            (\<exists>err. invoke ss c (after ss calls (snd (Close sm dc)))
                     = (Some err, after ss calls (snd (Close sm dc)))))
       \<and> (checksContext ss c \<longrightarrow>
            invoke ss c (after ss calls (snd (Close sm dc)))
              = (Some MsgStateDomainContextClosed, after ss calls (snd (Close sm dc))))"
proof -
  let ?dc = "after ss calls (snd (Close sm dc))"
  have "closed ?dc"
    by (simp add: after_keeps_closed Close_def)
  then have chk: "checkResetInitUnFlushed ?dc = Inl MsgStateDomainContextClosed"
    by (simp add: checkResetInitUnFlushed_def)
  have 1: "isGuarded c \<longrightarrow> (\<exists>err. invoke ss c ?dc = (Some err, ?dc))"
    using chk isGuarded_fails by blast
  have 2: "checksContext ss c \<longrightarrow> invoke ss c ?dc = (Some MsgStateDomainContextClosed, ?dc)"
    using chk checksContext_fails by blast
  show ?thesis
    using 1 2 by (simp add: Close_def GetDomainContext_def)
qed

theorem Close_effect_witness:
  "GetDomainContext (fst (Close \<lparr> domainContexts = [1 \<mapsto> (0::nat)] \<rparr> sample_created)) 1 = None
   \<and> invoke sample_stateStore (CallFindAvailableStates ''coin'' sample_query)
        (after sample_stateStore [CallReset ContextDone, CallClearTransactions [7]]
           (snd (Close \<lparr> domainContexts = [1 \<mapsto> (0::nat)] \<rparr> sample_created)))
       = (Some MsgStateDomainContextClosed,
          after sample_stateStore [CallReset ContextDone, CallClearTransactions [7]]
           (snd (Close \<lparr> domainContexts = [1 \<mapsto> (0::nat)] \<rparr> sample_created)))"
proof -
  have id: "dc_id sample_created = 1"
    by (simp add: sample_created_eq)
  have c: "checksContext sample_stateStore (CallFindAvailableStates ''coin'' sample_query)"
    by simp
  show ?thesis
    using Close_effect [of "\<lparr> domainContexts = [1 \<mapsto> (0::nat)] \<rparr>" sample_created
        "CallFindAvailableStates ''coin'' sample_query" sample_stateStore
        "[CallReset ContextDone, CallClearTransactions [7]]"] c
    by (simp add: id)
qed

text \<open>
  The claim as stated fails: on the closed context \<^verbatim>\<open>InitiateFlush\<close> returns no error and
  seals the unflushed write operation for flushing, and \<^verbatim>\<open>ClearTransactions\<close> still
  removes the lock of transaction 7.
\<close>

theorem Close_unchecked_counterexample:
  "closed (snd (Close \<lparr> domainContexts = [1 \<mapsto> (0::nat)] \<rparr> sample_created))
   \<and> fst (InitiateFlush ContextDone (snd (Close \<lparr> domainContexts = [1 \<mapsto> (0::nat)] \<rparr> sample_created)))
       = None
   \<and> flushing (snd (InitiateFlush ContextDone
        (snd (Close \<lparr> domainContexts = [1 \<mapsto> (0::nat)] \<rparr> sample_created))))
       = unFlushed sample_created
   \<and> txLocks (snd (Close \<lparr> domainContexts = [1 \<mapsto> (0::nat)] \<rparr> sample_created))
       = [\<lparr> lock_State = ''s1'', lock_Transaction = 7, lock_Type = StateLockTypeCreate \<rparr>]
   \<and> txLocks (ClearTransactions (snd (Close \<lparr> domainContexts = [1 \<mapsto> (0::nat)] \<rparr> sample_created)) [7])
       = []"
  by (simp add: Close_def sample_created_eq InitiateFlush_def clearExistingFlush_def
      ClearTransactions_def)


subsection \<open>What a query on a context is to return\<close>

text \<open>
  The result of \<^verbatim>\<open>FindAvailableStates\<close> in the words of the specification: the durable
  states of the schema that match the query and are neither spent nor spend-locked in
  the context; the states of the creating map that are of the schema, match the query
  and are not spend-locked in the context; the two merged, a state id of the overlay
  that is also durable being taken once; sorted under the query's sort, truncated to
  its limit, each state with the locks the context holds on it.
\<close>

definition durableRow ::
  "'v domainContext \<Rightarrow> 'v Schema \<Rightarrow> ('v, 'k) QueryJSON \<Rightarrow> durableState \<Rightarrow> 'v StateWithLabels option"
where
  "durableRow dc schema query row =
     (if row_Spent row \<or> isSpendLocked (txLocks dc) (state_ID (row_State row))
         \<or> state_Schema (row_State row) \<noteq> schema_ID schema
      then None
      else case RecoverLabels schema (row_State row) of
        Inl err \<Rightarrow> None
      | Inr labels \<Rightarrow>
          if q_EvalQuery query labels = Inr True
          then Some \<lparr> swl_State = row_State row, LabelValues = labels \<rparr>
          else None)"

definition durableAvailable ::
  "('v, 'k) stateStore \<Rightarrow> 'v domainContext \<Rightarrow> 'v Schema \<Rightarrow> ('v, 'k) QueryJSON \<Rightarrow> 'v StateWithLabels list"
where
  "durableAvailable ss dc schema query = List.map_filter (durableRow dc schema query) (durableStates ss)"

definition overlayAvailable ::
  "'v domainContext \<Rightarrow> 'v Schema \<Rightarrow> ('v, 'k) QueryJSON \<Rightarrow> 'v StateWithLabels list"
where
  "overlayAvailable dc schema query =
     filter (\<lambda>s. state_Schema (swl_State s) = schema_ID schema
                \<and> \<not> isSpendLocked (txLocks dc) (state_ID (swl_State s))
                \<and> q_EvalQuery query (LabelValues s) = Inr True)
       (map snd (creatingStates dc))"

definition availableStates ::
  "('v, 'k::linorder) stateStore \<Rightarrow> 'v domainContext \<Rightarrow> 'v Schema \<Rightarrow> ('v, 'k) QueryJSON \<Rightarrow> State list"
where
  "availableStates ss dc schema query =
     (let durable = durableAvailable ss dc schema query;
          merged = durable
            @ filter (\<lambda>s. state_ID (swl_State s) \<notin> set (map (state_ID \<circ> swl_State) durable))
                (overlayAvailable dc schema query)
      in map (\<lambda>s. (swl_State s) \<lparr> state_Locks :=
                    filter (\<lambda>l. lock_State l = state_ID (swl_State s)) (txLocks dc) \<rparr>)
           (limitTo (q_Limit query) (sort_key (\<lambda>s. q_SortKey query (LabelValues s)) merged)))"


subsection \<open>Sorting and truncation\<close>

lemma sort_key_append:
  "sort_key k (A @ M) = foldr (insort_key k) A (sort_key k M)"
  by (simp add: sort_key_def)

lemma sort_key_sorted_prefix:
  "sort_key k (sort_key k xs @ ys) = sort_key k (xs @ ys)"
proof (rule properties_for_sort_key [symmetric])
  show "mset (sort_key k (sort_key k xs @ ys)) = mset (xs @ ys)"
    by simp
  show "sorted (map k (sort_key k (sort_key k xs @ ys)))"
    by simp
  fix c
  assume "c \<in> set (sort_key k (sort_key k xs @ ys))"
  have "filter (\<lambda>x. k c = k x) (sort_key k (sort_key k xs @ ys)) = filter (\<lambda>x. k x = k c) (sort_key k (sort_key k xs @ ys))"
    by (rule filter_cong) auto
  also have "\<dots> = filter (\<lambda>x. k x = k c) (sort_key k xs) @ filter (\<lambda>x. k x = k c) ys"
    by (simp add: sort_key_stable)
  also have "\<dots> = filter (\<lambda>x. k x = k c) (xs @ ys)"
    by (simp add: sort_key_stable)
  also have "\<dots> = filter (\<lambda>x. k c = k x) (xs @ ys)"
    by (rule filter_cong) auto
  finally show "filter (\<lambda>x. k c = k x) (sort_key k (sort_key k xs @ ys)) = filter (\<lambda>x. k c = k x) (xs @ ys)" .
qed

lemma insort_key_append_heavy:
  "\<forall>y \<in> set S2. k a \<le> k y \<Longrightarrow> insort_key k a (U @ S2) = insort_key k a U @ S2"
proof (induction U)
  case Nil
  then show ?case by (cases S2) auto
next
  case (Cons u U)
  then show ?case by simp
qed

lemma foldr_insort_append_heavy:
  "\<forall>a \<in> set A. \<forall>y \<in> set S2. k a \<le> k y
   \<Longrightarrow> foldr (insort_key k) A (S1 @ S2) = foldr (insort_key k) A S1 @ S2"
  by (induction A) (simp_all add: insort_key_append_heavy)

lemma set_foldr_insort: "set (foldr (insort_key k) A S) = set A \<union> set S"
  by (induction A) (auto simp add: set_insort_key)

lemma length_foldr_insort: "length (foldr (insort_key k) A S) = length A + length S"
  by (induction A) auto

lemma sorted_split_heavy:
  assumes "sorted (map k S)"
    and up: "\<And>x y. P x \<Longrightarrow> k x \<le> k y \<Longrightarrow> P y"
  shows "\<forall>y \<in> set (dropWhile (\<lambda>y. \<not> P y) S). P y"
  using assms(1)
proof (induction S)
  case Nil
  then show ?case by simp
next
  case (Cons s S)
  show ?case
  proof (cases "P s")
    case True
    have le: "\<forall>y \<in> set S. k s \<le> k y"
      using Cons.prems by simp
    have "P y" if "y \<in> set S" for y
      using up [OF True] le that by blast
    with True show ?thesis by simp
  next
    case False
    have srt: "sorted (map k S)"
      using Cons.prems by simp
    have eq: "dropWhile (\<lambda>y. \<not> P y) (s # S) = dropWhile (\<lambda>y. \<not> P y) S"
      using False by simp
    show ?thesis
      unfolding eq by (rule Cons.IH [OF srt])
  qed
qed

text \<open>
  Behind at least \<open>n\<close> elements \<open>A\<close>, dropping elements that are not below any element of
  \<open>A\<close> does not change the first \<open>n\<close> elements of the sorted list.
\<close>

lemma take_sort_key_drop_heavy:
  assumes len: "n \<le> length A"
    and heavy: "\<And>a x. a \<in> set A \<Longrightarrow> x \<in> set M \<Longrightarrow> H x \<Longrightarrow> k a \<le> k x"
    and light: "\<And>a. a \<in> set A \<Longrightarrow> \<not> H a"
  shows "take n (sort_key k (A @ filter (\<lambda>x. \<not> H x) M)) = take n (sort_key k (A @ M))"
proof -
  define P where "P y \<longleftrightarrow> (\<forall>a \<in> set A. k a \<le> k y)" for y
  define S where "S = sort_key k M"
  define S1 where "S1 = takeWhile (\<lambda>y. \<not> P y) S"
  define S2 where "S2 = dropWhile (\<lambda>y. \<not> P y) S"
  have S: "S = S1 @ S2"
    by (simp add: S1_def S2_def)
  have sorted: "sorted (map k S)"
    by (simp add: S_def)
  have P2: "\<forall>y \<in> set S2. P y"
    unfolding S2_def
  proof (rule sorted_split_heavy [OF sorted])
    fix x y assume "P x" "k x \<le> k y"
    then show "P y" unfolding P_def using order_trans by blast
  qed
  have nP1: "\<forall>y \<in> set S1. \<not> P y"
    unfolding S1_def by (auto dest: set_takeWhileD)
  define L1 where "L1 = foldr (insort_key k) A S1"
  have L: "sort_key k (A @ M) = L1 @ S2"
    unfolding sort_key_append S_def [symmetric] S L1_def
    by (rule foldr_insort_append_heavy) (use P2 in \<open>auto simp add: P_def\<close>)
  have lenL1: "n \<le> length L1"
    using len by (simp add: L1_def length_foldr_insort)
  have inM: "set S1 \<subseteq> set M"
  proof
    fix x assume "x \<in> set S1"
    then have "x \<in> set S" unfolding S by simp
    then show "x \<in> set M" by (simp add: S_def)
  qed
  have noH: "\<forall>x \<in> set L1. \<not> H x"
  proof
    fix x assume "x \<in> set L1"
    then consider "x \<in> set A" | "x \<in> set S1"
      by (auto simp add: L1_def set_foldr_insort)
    then show "\<not> H x"
    proof cases
      case 1
      then show ?thesis by (rule light)
    next
      case 2
      then have "\<not> P x" using nP1 by blast
      moreover have "x \<in> set M" using 2 inM by blast
      ultimately show ?thesis
        using heavy unfolding P_def by blast
    qed
  qed
  have fA: "filter (\<lambda>x. \<not> H x) A = A"
    using light by (simp add: filter_id_conv)
  have "sort_key k (A @ filter (\<lambda>x. \<not> H x) M) = sort_key k (filter (\<lambda>x. \<not> H x) (A @ M))"
    by (simp add: fA)
  also have "\<dots> = filter (\<lambda>x. \<not> H x) (sort_key k (A @ M))"
    by (rule filter_sort [symmetric])
  also have "\<dots> = L1 @ filter (\<lambda>x. \<not> H x) S2"
    unfolding L using noH by (simp add: filter_id_conv)
  finally have "take n (sort_key k (A @ filter (\<lambda>x. \<not> H x) M)) = take n L1"
    using lenL1 by simp
  moreover have "take n (sort_key k (A @ M)) = take n L1"
    unfolding L using lenL1 by simp
  ultimately show ?thesis by simp
qed


lemma distinct_map_sort_key:
  "distinct (map f (sort_key k xs)) = distinct (map f xs)"
  by (simp add: distinct_map)

lemma take_merge_truncated:
  fixes K :: "'a \<Rightarrow> 'k::linorder"
  assumes dist: "distinct (map idf D)"
    and same: "\<And>e d. e \<in> set E \<Longrightarrow> d \<in> set D \<Longrightarrow> idf e = idf d \<Longrightarrow> K e = K d"
  shows "take m (sort_key K (take m (sort_key K D)
            @ filter (\<lambda>e. idf e \<notin> idf ` set (take m (sort_key K D))) E))
       = take m (sort_key K (D @ filter (\<lambda>e. idf e \<notin> idf ` set D) E))"
proof (cases "length D \<le> m")
  case True
  then have "take m (sort_key K D) = sort_key K D"
    by simp
  then show ?thesis
    by (simp add: sort_key_sorted_prefix)
next
  case False
  define S where "S = sort_key K D"
  define A where "A = take m S"
  define T where "T = drop m S"
  define H where "H x \<longleftrightarrow> idf x \<in> idf ` set T" for x
  define E2 where "E2 = filter (\<lambda>e. idf e \<notin> idf ` set D) E"
  have S: "S = A @ T"
    by (simp add: A_def T_def)
  have setD: "set D = set A \<union> set T"
    using S by (metis S_def set_append set_sort)
  have lenA: "m \<le> length A"
    using False by (simp add: A_def S_def)
  have dS: "distinct (map idf (A @ T))"
    using dist by (simp add: S [symmetric] S_def distinct_map_sort_key)
  have sorted: "sorted (map K (A @ T))"
    by (simp add: S [symmetric] S_def)
  have inj: "inj_on idf (set D)"
    using dist by (simp add: distinct_map)
  have light: "\<not> H a" if "a \<in> set A" for a
  proof
    assume "H a"
    then obtain t where "t \<in> set T" "idf a = idf t"
      unfolding H_def by blast
    with that dS show False
      by (auto simp add: image_iff)
  qed
  have KT: "K a \<le> K t" if "a \<in> set A" "t \<in> set T" for a t
    using sorted that by (auto simp add: sorted_append)
  have heavyT: "K a \<le> K x" if "a \<in> set A" "x \<in> set T" "H x" for a x
    using KT that by blast
  have heavyE: "K a \<le> K x" if "a \<in> set A" "x \<in> set E" "H x" for a x
  proof -
    from \<open>H x\<close> obtain t where t: "t \<in> set T" "idf x = idf t"
      unfolding H_def by blast
    then have "t \<in> set D" using setD by blast
    with same [OF \<open>x \<in> set E\<close> this t(2)] KT [OF \<open>a \<in> set A\<close> t(1)] show ?thesis by simp
  qed
  have f1: "filter (\<lambda>x. \<not> H x) (filter (\<lambda>e. idf e \<notin> idf ` set A) E) = E2"
    unfolding E2_def filter_filter
    by (rule filter_cong) (auto simp add: H_def setD)
  have f2: "filter (\<lambda>x. \<not> H x) (T @ E2) = E2"
  proof -
    have "filter (\<lambda>x. \<not> H x) T = []"
      by (auto simp add: H_def filter_empty_conv)
    moreover have "filter (\<lambda>x. \<not> H x) E2 = E2"
      unfolding filter_id_conv by (auto simp add: E2_def H_def setD)
    ultimately show ?thesis by simp
  qed
  have code: "take m (sort_key K (A @ filter (\<lambda>e. idf e \<notin> idf ` set A) E))
      = take m (sort_key K (A @ E2))"
  proof -
    have "take m (sort_key K (A @ filter (\<lambda>x. \<not> H x) (filter (\<lambda>e. idf e \<notin> idf ` set A) E)))
        = take m (sort_key K (A @ filter (\<lambda>e. idf e \<notin> idf ` set A) E))"
      using lenA
    proof (rule take_sort_key_drop_heavy)
      fix a x assume "a \<in> set A" "x \<in> set (filter (\<lambda>e. idf e \<notin> idf ` set A) E)" "H x"
      then show "K a \<le> K x" using heavyE by simp
    next
      fix a assume "a \<in> set A" then show "\<not> H a" by (rule light)
    qed
    then show ?thesis unfolding f1 by simp
  qed
  have spec: "take m (sort_key K (D @ E2)) = take m (sort_key K (A @ E2))"
  proof -
    have "sort_key K (D @ E2) = sort_key K (S @ E2)"
      unfolding S_def by (rule sort_key_sorted_prefix [symmetric])
    also have "\<dots> = sort_key K (A @ (T @ E2))"
      by (simp add: S)
    finally have eq: "sort_key K (D @ E2) = sort_key K (A @ (T @ E2))" .
    have "take m (sort_key K (A @ filter (\<lambda>x. \<not> H x) (T @ E2))) = take m (sort_key K (A @ (T @ E2)))"
      using lenA
    proof (rule take_sort_key_drop_heavy)
      fix a x assume a: "a \<in> set A" and x: "x \<in> set (T @ E2)" and h: "H x"
      from x consider "x \<in> set T" | "x \<in> set E"
        by (auto simp add: E2_def)
      then show "K a \<le> K x"
        using heavyT [OF a _ h] heavyE [OF a _ h] by cases blast+
    next
      fix a assume "a \<in> set A" then show "\<not> H a" by (rule light)
    qed
    then show ?thesis unfolding f2 eq by simp
  qed
  show ?thesis
    using code spec by (simp add: A_def S_def E2_def)
qed

lemma merge_sorted_prefix_ids:
  "sort_key K (sort_key K D @ filter (\<lambda>e. idf e \<notin> idf ` set (sort_key K D)) E)
   = sort_key K (D @ filter (\<lambda>e. idf e \<notin> idf ` set D) E)"
  by (simp add: sort_key_sorted_prefix)

subsection \<open>The query against the specification\<close>

lemma spending_iff:
  "x \<in> set (map lock_State (filter (\<lambda>l. lock_Type l = StateLockTypeSpend) locks)) \<longleftrightarrow> isSpendLocked locks x"
  by (auto simp add: isSpendLocked_def)

lemma durableMatch_spending:
  "durableMatch schema query (map lock_State (filter (\<lambda>l. lock_Type l = StateLockTypeSpend) (txLocks dc)))
   = durableRow dc schema query"
  unfolding durableMatch_def durableRow_def spending_iff by auto

lemma durableRow_Some:
  assumes "durableRow dc schema query row = Some s"
  shows "swl_State s = row_State row" "RecoverLabels schema (row_State row) = Inr (LabelValues s)"
    "\<not> row_Spent row" "\<not> isSpendLocked (txLocks dc) (state_ID (row_State row))"
    "state_Schema (row_State row) = schema_ID schema" "q_EvalQuery query (LabelValues s) = Inr True"
proof -
  from assms have g: "\<not> (row_Spent row \<or> isSpendLocked (txLocks dc) (state_ID (row_State row))
         \<or> state_Schema (row_State row) \<noteq> schema_ID schema)"
    by (auto simp add: durableRow_def split: if_splits)
  then obtain labels where l: "RecoverLabels schema (row_State row) = Inr labels"
    using assms by (cases "RecoverLabels schema (row_State row)") (auto simp add: durableRow_def)
  from assms g l have e: "q_EvalQuery query labels = Inr True"
    and s: "s = \<lparr> swl_State = row_State row, LabelValues = labels \<rparr>"
    by (auto simp add: durableRow_def split: if_splits)
  show "swl_State s = row_State row" "RecoverLabels schema (row_State row) = Inr (LabelValues s)"
    "\<not> row_Spent row" "\<not> isSpendLocked (txLocks dc) (state_ID (row_State row))"
    "state_Schema (row_State row) = schema_ID schema" "q_EvalQuery query (LabelValues s) = Inr True"
    using g l e s by simp_all
qed

lemma checkResetInitUnFlushed_again:
  "checkResetInitUnFlushed dc = Inr dc1 \<Longrightarrow> checkResetInitUnFlushed dc1 = Inr dc1"
  by (auto simp add: checkResetInitUnFlushed_def theUnFlushed_def split: if_splits option.splits)

lemma collectMatches_eq:
  assumes "\<forall>s \<in> snd ` set cs. \<exists>b. q_EvalQuery query (LabelValues s) = Inr b"
  shows "collectMatches dc schema dbStates query False cs acc =
     Inr (acc @ filter (\<lambda>s. state_ID (swl_State s) \<notin> set (map state_ID dbStates))
                  (filter (\<lambda>s. state_Schema (swl_State s) = schema_ID schema
                      \<and> \<not> isSpendLocked (txLocks dc) (state_ID (swl_State s))
                      \<and> q_EvalQuery query (LabelValues s) = Inr True) (map snd cs)))"
  using assms
proof (induction cs arbitrary: acc)
  case Nil
  then show ?case by simp
next
  case (Cons p cs)
  obtain k state where p: "p = (k, state)" by (cases p) auto
  obtain b where b: "q_EvalQuery query (LabelValues state) = Inr b"
    using Cons.prems p by auto
  have rest: "\<forall>s \<in> snd ` set cs. \<exists>b. q_EvalQuery query (LabelValues s) = Inr b"
    using Cons.prems by simp
  show ?case
    unfolding p using b Cons.IH [OF rest] by (auto simp add: image_iff)
qed

lemma in_map_filter_iff:
  "y \<in> set (List.map_filter g xs) \<longleftrightarrow> (\<exists>x \<in> set xs. g x = Some y)"
  by (induction xs) (auto split: option.splits)

lemma durableAvailable_recover:
  "s \<in> set (durableAvailable ss dc schema query) \<Longrightarrow> RecoverLabels schema (swl_State s) = Inr (LabelValues s)"
  unfolding durableAvailable_def in_map_filter_iff
  using durableRow_Some(1,2) by metis

lemma durableAvailable_ids:
  "map (state_ID \<circ> swl_State) (durableAvailable ss dc schema query)
   = map (state_ID \<circ> row_State) (filter (\<lambda>row. durableRow dc schema query row \<noteq> None) (durableStates ss))"
proof -
  have "map (state_ID \<circ> swl_State) (List.map_filter (durableRow dc schema query) rs)
     = map (state_ID \<circ> row_State) (filter (\<lambda>row. durableRow dc schema query row \<noteq> None) rs)" for rs
  proof (induction rs)
    case Nil
    then show ?case by simp
  next
    case (Cons r rs)
    then show ?case
      by (cases "durableRow dc schema query r") (auto dest: durableRow_Some(1))
  qed
  then show ?thesis
    by (simp add: durableAvailable_def)
qed

lemma durableAvailable_distinct:
  "distinct (map (state_ID \<circ> row_State) (durableStates ss))
   \<Longrightarrow> distinct (map (state_ID \<circ> swl_State) (durableAvailable ss dc schema query))"
  unfolding durableAvailable_ids by (rule distinct_map_filter)

lemma recoverAll_eq:
  "\<forall>s \<in> set xs. RecoverLabels schema (swl_State s) = Inr (LabelValues s)
   \<Longrightarrow> recoverAll schema (map swl_State xs) = Inr xs"
  by (induction xs) auto

lemma getUnFlushedStates_pass:
  assumes "checkResetInitUnFlushed dc = Inr dc1"
  shows "\<exists>nulls. getUnFlushedStates dc =
     Inr (dc1, map lock_State (filter (\<lambda>l. lock_Type l = StateLockTypeSpend) (txLocks dc)), [], nulls)"
  using assms checkResetInitUnFlushed_Inr [OF assms]
  by (simp add: getUnFlushedStates_def)

lemma findStates_eq:
  assumes "GetSchema ss schemaID = Inr schema" "db_failure ss = None" "q_SortError query = None"
  shows "findStates ss schemaID query
           (map lock_State (filter (\<lambda>l. lock_Type l = StateLockTypeSpend) (txLocks dc)))
         = Inr (schema, map swl_State (limitTo (q_Limit query)
             (sort_key (\<lambda>s. q_SortKey query (LabelValues s)) (durableAvailable ss dc schema query))))"
  using assms by (simp add: findStates_def durableMatch_spending durableAvailable_def)

lemma mergeInMemoryMatches_eq:
  assumes rec: "\<forall>s \<in> set xs. RecoverLabels schema (swl_State s) = Inr (LabelValues s)"
    and srt: "q_SortError query = None" and lim: "\<forall>n. q_Limit query = Some n \<longrightarrow> 0 \<le> n"
  shows "mergeInMemoryMatches schema (map swl_State xs) extras query =
     Inr (map swl_State (limitTo (q_Limit query)
       (sort_key (\<lambda>s. q_SortKey query (LabelValues s))
          (xs @ filter (\<lambda>s. state_ID (swl_State s) \<notin> set (map (state_ID \<circ> swl_State) xs)) extras))))"
proof (cases "q_Limit query")
  case None
  show ?thesis
    unfolding mergeInMemoryMatches_def recoverAll_eq [OF rec] SortValueSetInPlace_def
    by (simp add: srt None Let_def limitTo_def)
next
  case (Some n)
  with lim have "0 \<le> n" by simp
  then show ?thesis
    unfolding mergeInMemoryMatches_def recoverAll_eq [OF rec] SortValueSetInPlace_def
    by (simp add: srt Some Let_def limitTo_def)
qed

lemma limitTo_sorted_idem:
  "limitTo lim (sort_key K (limitTo lim (sort_key K D))) = limitTo lim (sort_key K D)"
proof -
  have "sorted (map K (limitTo lim (sort_key K D)))"
    by (cases lim) (simp_all add: limitTo_def sorted_wrt_take take_map [symmetric] del: take_map)
  then have "sort_key K (limitTo lim (sort_key K D)) = limitTo lim (sort_key K D)"
    by (rule sort_key_id_if_sorted)
  then show ?thesis
    by (cases lim) (simp_all add: limitTo_def)
qed

lemma mergeUnFlushedApplyLocks_eq:
  assumes K_def: "K = (\<lambda>s. q_SortKey query (LabelValues s))"
    and E1_def: "E1 = filter (\<lambda>s. state_ID (swl_State s) \<notin> set (map (state_ID \<circ> swl_State) D'))
                  (overlayAvailable dc1 schema query)"
    and pass: "checkResetInitUnFlushed dc1 = Inr dc1"
    and ev: "\<forall>s \<in> snd ` set (creatingStates dc1). \<exists>b. q_EvalQuery query (LabelValues s) = Inr b"
    and rec: "\<forall>s \<in> set D'. RecoverLabels schema (swl_State s) = Inr (LabelValues s)"
    and srt: "q_SortError query = None" and lim: "\<forall>n. q_Limit query = Some n \<longrightarrow> 0 \<le> n"
    and D': "D' = limitTo (q_Limit query) (sort_key K D)"
  shows "mergeUnFlushedApplyLocks dc1 schema (map swl_State D') query False =
     (Inr (applyLocks dc1 (map swl_State (limitTo (q_Limit query) (sort_key K (D' @ E1))))), dc1)"
proof -
  have cm: "collectMatches dc1 schema (map swl_State D') query False (creatingStates dc1) [] = Inr E1"
    unfolding collectMatches_eq [OF ev] E1_def overlayAvailable_def by (simp add: comp_def)
  show ?thesis
  proof (cases "E1 = []")
    case True
    have "limitTo (q_Limit query) (sort_key K (D' @ E1)) = D'"
      unfolding True D' by (simp add: limitTo_sorted_idem)
    then show ?thesis
      by (simp add: mergeUnFlushedApplyLocks_def pass cm True)
  next
    case False
    have f: "filter (\<lambda>s. state_ID (swl_State s) \<notin> set (map (state_ID \<circ> swl_State) D')) E1 = E1"
      by (simp add: E1_def)
    have "mergeInMemoryMatches schema (map swl_State D') E1 query =
       Inr (map swl_State (limitTo (q_Limit query) (sort_key K (D' @ E1))))"
      unfolding mergeInMemoryMatches_eq [OF rec srt lim] f K_def ..
    with False show ?thesis
      by (simp add: mergeUnFlushedApplyLocks_def pass cm)
  qed
qed


lemma merge_limit_core:
  fixes K :: "'a \<Rightarrow> 'k::linorder"
  assumes dist: "distinct (map idf D)"
    and same: "\<And>e d. e \<in> set E \<Longrightarrow> d \<in> set D \<Longrightarrow> idf e = idf d \<Longrightarrow> K e = K d"
  shows "limitTo lim (sort_key K (limitTo lim (sort_key K D)
            @ filter (\<lambda>e. idf e \<notin> set (map idf (limitTo lim (sort_key K D)))) E))
       = limitTo lim (sort_key K (D @ filter (\<lambda>e. idf e \<notin> set (map idf D)) E))"
proof (cases lim)
  case None
  show ?thesis
    unfolding None limitTo_def option.case set_map
    by (rule merge_sorted_prefix_ids)
next
  case (Some n)
  show ?thesis
    unfolding Some limitTo_def option.case set_map
    by (rule take_merge_truncated [OF dist same])
qed

lemma FindAvailableStates_refines:
  fixes ss :: "('v, 'k::linorder) stateStore"
  assumes pass: "checkResetInitUnFlushed dc = Inr dc1"
    and schema: "GetSchema ss schemaID = Inr schema"
    and db: "db_failure ss = None"
    and srt: "q_SortError query = None"
    and lim: "\<forall>n. q_Limit query = Some n \<longrightarrow> 0 \<le> n"
    and ev: "\<forall>s \<in> snd ` set (creatingStates dc). \<exists>b. q_EvalQuery query (LabelValues s) = Inr b"
    and ids: "distinct (map (state_ID \<circ> row_State) (durableStates ss))"
    and same: "\<forall>s \<in> snd ` set (creatingStates dc). \<forall>row \<in> set (durableStates ss).
                 state_ID (row_State row) = state_ID (swl_State s) \<longrightarrow>
                 RecoverLabels schema (row_State row) = Inr (LabelValues s)"
  shows "FindAvailableStates ss dc schemaID query
           = (Inr (schema, availableStates ss dc schema query), dc1)"
proof -
  define K where "K = (\<lambda>s :: 'v StateWithLabels. q_SortKey query (LabelValues s))"
  define D where "D = durableAvailable ss dc schema query"
  define E where "E = overlayAvailable dc schema query"
  define D' where "D' = limitTo (q_Limit query) (sort_key K D)"
  define E1 where "E1 = filter (\<lambda>s. state_ID (swl_State s) \<notin> set (map (state_ID \<circ> swl_State) D')) E"
  have dc1: "dc1 = dc \<lparr> unFlushed := Some (theUnFlushed dc) \<rparr>"
    using pass by (rule checkResetInitUnFlushed_Inr)
  have locks: "txLocks dc1 = txLocks dc" and cre: "creatingStates dc1 = creatingStates dc"
    by (simp_all add: dc1)
  have E_dc1: "overlayAvailable dc1 schema query = E"
    by (simp add: E_def overlayAvailable_def locks cre)
  obtain nulls where g: "getUnFlushedStates dc =
     Inr (dc1, map lock_State (filter (\<lambda>l. lock_Type l = StateLockTypeSpend) (txLocks dc)), [], nulls)"
    using getUnFlushedStates_pass [OF pass] by blast
  have f: "findStates ss schemaID query
           (map lock_State (filter (\<lambda>l. lock_Type l = StateLockTypeSpend) (txLocks dc)))
         = Inr (schema, map swl_State D')"
    unfolding D'_def D_def K_def by (rule findStates_eq [OF schema db srt])
  have recD: "\<forall>s \<in> set D. RecoverLabels schema (swl_State s) = Inr (LabelValues s)"
    unfolding D_def using durableAvailable_recover by blast
  have subD: "set D' \<subseteq> set D"
    by (cases "q_Limit query") (auto simp add: D'_def limitTo_def dest: in_set_takeD)
  have recD': "\<forall>s \<in> set D'. RecoverLabels schema (swl_State s) = Inr (LabelValues s)"
    using recD subD by blast
  have ev1: "\<forall>s \<in> snd ` set (creatingStates dc1). \<exists>b. q_EvalQuery query (LabelValues s) = Inr b"
    using ev by (simp add: cre)
  have m: "mergeUnFlushedApplyLocks dc1 schema (map swl_State D') query False =
     (Inr (applyLocks dc1 (map swl_State (limitTo (q_Limit query) (sort_key K (D' @ E1))))), dc1)"
    by (rule mergeUnFlushedApplyLocks_eq [OF K_def _ checkResetInitUnFlushed_again [OF pass] ev1 recD' srt lim D'_def])
       (simp add: E1_def E_dc1)
  have distD: "distinct (map (state_ID \<circ> swl_State) D)"
    unfolding D_def using ids by (rule durableAvailable_distinct)
  have sameK: "K e = K d" if e: "e \<in> set E" and d: "d \<in> set D"
    and eq: "(state_ID \<circ> swl_State) e = (state_ID \<circ> swl_State) d" for e d
  proof -
    from d obtain row where row: "row \<in> set (durableStates ss)" "durableRow dc schema query row = Some d"
      unfolding D_def durableAvailable_def in_map_filter_iff by blast
    from e have ec: "e \<in> snd ` set (creatingStates dc)"
      by (auto simp add: E_def overlayAvailable_def)
    have "state_ID (row_State row) = state_ID (swl_State e)"
      using eq durableRow_Some(1) [OF row(2)] by simp
    with same ec row(1) have "RecoverLabels schema (row_State row) = Inr (LabelValues e)"
      by blast
    with durableRow_Some(2) [OF row(2)] have "LabelValues e = LabelValues d"
      by simp
    then show ?thesis by (simp add: K_def)
  qed
  have core: "limitTo (q_Limit query) (sort_key K (D' @ E1))
      = limitTo (q_Limit query) (sort_key K
          (D @ filter (\<lambda>s. state_ID (swl_State s) \<notin> set (map (state_ID \<circ> swl_State) D)) E))"
    using merge_limit_core [of "state_ID \<circ> swl_State" D E K "q_Limit query", OF distD sameK]
    unfolding D'_def E1_def o_apply .
  have spec: "availableStates ss dc schema query =
      applyLocks dc1 (map swl_State (limitTo (q_Limit query) (sort_key K
          (D @ filter (\<lambda>s. state_ID (swl_State s) \<notin> set (map (state_ID \<circ> swl_State) D)) E))))"
    unfolding availableStates_def applyLocks_def Let_def D_def E_def K_def locks map_map o_def
    by (rule refl)
  have "FindAvailableStates ss dc schemaID query
      = (Inr (schema, applyLocks dc1 (map swl_State (limitTo (q_Limit query) (sort_key K (D' @ E1))))), dc1)"
    unfolding FindAvailableStates_def g by (simp add: f m)
  then show ?thesis
    unfolding core spec .
qed



lemma sort_key_reordered:
  fixes K :: "'a \<Rightarrow> 'k::linorder"
  assumes m: "mset xs = mset ys" and inj: "inj_on K (set xs)"
  shows "sort_key K xs = sort_key K ys"
proof (rule properties_for_sort_key)
  show "mset (sort_key K ys) = mset xs"
    by (simp add: m)
  show "sorted (map K (sort_key K ys))"
    by simp
  fix k
  assume "k \<in> set (sort_key K ys)"
  then have k: "k \<in> set xs"
    using mset_eq_setD [OF m] by simp
  have sx: "set (sort_key K ys) = set xs"
    using mset_eq_setD [OF m] by simp
  have "filter (\<lambda>x. K k = K x) (sort_key K ys) = filter ((=) k) (sort_key K ys)"
    using inj k sx by (intro filter_cong) (auto dest: inj_onD)
  also have "\<dots> = replicate (count (mset (sort_key K ys)) k) k"
    by (rule replicate_count_mset_eq_filter_eq [symmetric])
  also have "\<dots> = replicate (count (mset xs) k) k"
    by (simp add: m)
  also have "\<dots> = filter ((=) k) xs"
    by (rule replicate_count_mset_eq_filter_eq)
  also have "\<dots> = filter (\<lambda>x. K k = K x) xs"
    using inj k by (intro filter_cong) (auto dest: inj_onD)
  finally show "filter (\<lambda>x. K k = K x) (sort_key K ys) = filter (\<lambda>x. K k = K x) xs" .
qed

lemma availableStates_reordered:
  fixes ss :: "('v, 'k::linorder) stateStore"
  assumes m: "mset cs' = mset (creatingStates dc)"
    and inj: "inj_on (\<lambda>s. q_SortKey query (LabelValues s))
                (set (durableAvailable ss dc schema query) \<union> set (overlayAvailable dc schema query))"
  shows "availableStates ss (dc \<lparr> creatingStates := cs' \<rparr>) schema query
           = availableStates ss dc schema query"
proof -
  let ?dc = "dc \<lparr> creatingStates := cs' \<rparr>"
  let ?K = "\<lambda>s :: 'v StateWithLabels. q_SortKey query (LabelValues s)"
  let ?D = "durableAvailable ss dc schema query"
  let ?notD = "\<lambda>s :: 'v StateWithLabels. state_ID (swl_State s) \<notin> set (map (state_ID \<circ> swl_State) ?D)"
  have d: "durableAvailable ss ?dc schema query = ?D"
    by (simp add: durableAvailable_def durableRow_def [abs_def])
  have "mset (map snd cs') = mset (map snd (creatingStates dc))"
    using m by (metis mset_map)
  then have e: "mset (overlayAvailable ?dc schema query) = mset (overlayAvailable dc schema query)"
    by (simp add: overlayAvailable_def)
  have mm: "mset (?D @ filter ?notD (overlayAvailable dc schema query))
      = mset (?D @ filter ?notD (overlayAvailable ?dc schema query))"
    by (simp add: e)
  have "inj_on ?K (set (?D @ filter ?notD (overlayAvailable dc schema query)))"
    using inj by (rule inj_on_subset) auto
  with mm have "sort_key ?K (?D @ filter ?notD (overlayAvailable dc schema query))
      = sort_key ?K (?D @ filter ?notD (overlayAvailable ?dc schema query))"
    by (rule sort_key_reordered)
  then show ?thesis
    by (simp add: availableStates_def d Let_def)
qed

lemma checkResetInitUnFlushed_reordered:
  "checkResetInitUnFlushed dc = Inr dc1
   \<Longrightarrow> checkResetInitUnFlushed (dc \<lparr> creatingStates := cs' \<rparr>) = Inr (dc1 \<lparr> creatingStates := cs' \<rparr>)"
  by (auto simp add: checkResetInitUnFlushed_def split: if_splits option.splits)

text \<open>
  Claim C1, as the code has it. Let the context pass its check, the schema be known, the
  database and the sort instructions be sound, the limit not negative, the query
  evaluate without error on the states of the creating map, the durable rows have
  pairwise different state ids, and a durable row with the id of a state of the creating
  map have the labels of that state. Then \<^verbatim>\<open>FindAvailableStates\<close> returns the schema and
  exactly \<open>availableStates\<close>: the durable states of the schema that match the query and
  are neither spent nor spend-locked in the context, merged with the states of the
  creating map that are of the schema, match the query and are not spend-locked in the
  context either, an id that is in both being taken once, sorted under the query's sort,
  truncated to the limit, each state with the locks the context holds on it; the context
  is left as its check leaves it.

  States with equal sort keys stay in the order durable first, then creating map in the
  order the map is ranged over, which Go chooses anew at each call. When the sort keys of
  the candidates are pairwise different, the result is the same for every such order.
\<close>

theorem FindAvailableStates_result:
  fixes ss :: "('v, 'k::linorder) stateStore"
  assumes pass: "checkResetInitUnFlushed dc = Inr dc1"
    and schema: "GetSchema ss schemaID = Inr schema"
    and db: "db_failure ss = None"
    and srt: "q_SortError query = None"
    and lim: "\<forall>n. q_Limit query = Some n \<longrightarrow> 0 \<le> n"
    and ev: "\<forall>s \<in> snd ` set (creatingStates dc). \<exists>b. q_EvalQuery query (LabelValues s) = Inr b"
    and ids: "distinct (map (state_ID \<circ> row_State) (durableStates ss))"
    and same: "\<forall>s \<in> snd ` set (creatingStates dc). \<forall>row \<in> set (durableStates ss).
                 state_ID (row_State row) = state_ID (swl_State s) \<longrightarrow>
                 RecoverLabels schema (row_State row) = Inr (LabelValues s)"
  shows "FindAvailableStates ss dc schemaID query
           = (Inr (schema, availableStates ss dc schema query), dc1)
       \<and> (\<forall>cs'. mset cs' = mset (creatingStates dc)
              \<and> inj_on (\<lambda>s. q_SortKey query (LabelValues s))
                   (set (durableAvailable ss dc schema query) \<union> set (overlayAvailable dc schema query))
              \<longrightarrow> FindAvailableStates ss (dc \<lparr> creatingStates := cs' \<rparr>) schemaID query
                    = (Inr (schema, availableStates ss dc schema query),
                       dc1 \<lparr> creatingStates := cs' \<rparr>))"
proof (intro conjI allI impI)
  show "FindAvailableStates ss dc schemaID query
           = (Inr (schema, availableStates ss dc schema query), dc1)"
    using assms by (rule FindAvailableStates_refines)
next
  fix cs'
  assume a: "mset cs' = mset (creatingStates dc)
      \<and> inj_on (\<lambda>s. q_SortKey query (LabelValues s))
           (set (durableAvailable ss dc schema query) \<union> set (overlayAvailable dc schema query))"
  let ?dc = "dc \<lparr> creatingStates := cs' \<rparr>"
  have s: "set (creatingStates ?dc) = set (creatingStates dc)"
    using a mset_eq_setD by auto
  have ev': "\<forall>s \<in> snd ` set (creatingStates ?dc). \<exists>b. q_EvalQuery query (LabelValues s) = Inr b"
    unfolding s by (rule ev)
  have same': "\<forall>s \<in> snd ` set (creatingStates ?dc). \<forall>row \<in> set (durableStates ss).
                 state_ID (row_State row) = state_ID (swl_State s) \<longrightarrow>
                 RecoverLabels schema (row_State row) = Inr (LabelValues s)"
    unfolding s by (rule same)
  have "FindAvailableStates ss ?dc schemaID query
      = (Inr (schema, availableStates ss ?dc schema query), dc1 \<lparr> creatingStates := cs' \<rparr>)"
    using checkResetInitUnFlushed_reordered [OF pass] schema db srt lim ev' ids same'
    by (rule FindAvailableStates_refines)
  also have "availableStates ss ?dc schema query = availableStates ss dc schema query"
    using a by (intro availableStates_reordered) simp_all
  finally show "FindAvailableStates ss ?dc schemaID query
      = (Inr (schema, availableStates ss dc schema query), dc1 \<lparr> creatingStates := cs' \<rparr>)" .
qed

text \<open>
  A store with the durable state "d1" and the spent state "d2", and the sample context
  after transaction 9 has locked "s1" for spending.
\<close>

definition sample_flushedStore :: "(int, int) stateStore" where
  "sample_flushedStore =
     sample_stateStore \<lparr> durableStates :=
       [\<lparr> row_State = swl_State (sample_state ''d1'' ''zzzz''), row_Spent = False \<rparr>,
        \<lparr> row_State = swl_State (sample_state ''d2'' ''z''), row_Spent = True \<rparr>] \<rparr>"

definition sample_spent :: "int domainContext" where
  "sample_spent =
     snd (AddStateLocks sample_created
            [\<lparr> lock_State = ''s1'', lock_Transaction = 9, lock_Type = StateLockTypeSpend \<rparr>])"

lemma sample_schema_simps:
  "schema_ID sample_schema = ''coin''"
  "RecoverLabels sample_schema s = Inr (int (length (state_Data s)))"
  by (simp_all add: sample_schema_def)

lemma sample_flushedStore_simps:
  "GetSchema sample_flushedStore ''coin'' = Inr sample_schema"
  "db_failure sample_flushedStore = None"
  "durableStates sample_flushedStore =
     [\<lparr> row_State = swl_State (sample_state ''d1'' ''zzzz''), row_Spent = False \<rparr>,
      \<lparr> row_State = swl_State (sample_state ''d2'' ''z''), row_Spent = True \<rparr>]"
  by (simp_all add: sample_flushedStore_def sample_stateStore_def)

theorem FindAvailableStates_result_witness:
  "checkResetInitUnFlushed sample_created = Inr sample_created
   \<and> GetSchema sample_flushedStore ''coin'' = Inr sample_schema
   \<and> FindAvailableStates sample_flushedStore sample_created ''coin'' sample_query
       = (Inr (sample_schema,
            [(swl_State (sample_state ''s1'' ''abc''))
               \<lparr> state_Locks := [\<lparr> lock_State = ''s1'', lock_Transaction = 7,
                                    lock_Type = StateLockTypeCreate \<rparr>] \<rparr>,
             swl_State (sample_state ''d1'' ''zzzz'')]),
          sample_created)"
proof -
  have pass: "checkResetInitUnFlushed sample_created = Inr sample_created"
    by (simp add: sample_created_eq checkResetInitUnFlushed_def)
  have cre: "creatingStates sample_created = [(''s1'', sample_state ''s1'' ''abc'')]"
    and locks: "txLocks sample_created
        = [\<lparr> lock_State = ''s1'', lock_Transaction = 7, lock_Type = StateLockTypeCreate \<rparr>]"
    by (simp_all add: sample_created_eq)
  have srt: "q_SortError sample_query = None"
    and lim: "\<forall>n. q_Limit sample_query = Some n \<longrightarrow> 0 \<le> n"
    by (simp_all add: sample_query_def)
  have ev: "\<forall>s \<in> snd ` set (creatingStates sample_created).
      \<exists>b. q_EvalQuery sample_query (LabelValues s) = Inr b"
    by (simp add: cre sample_query_def)
  have ids: "distinct (map (state_ID \<circ> row_State) (durableStates sample_flushedStore))"
    by (simp add: sample_flushedStore_simps sample_state_def)
  have same: "\<forall>s \<in> snd ` set (creatingStates sample_created).
      \<forall>row \<in> set (durableStates sample_flushedStore).
        state_ID (row_State row) = state_ID (swl_State s) \<longrightarrow>
        RecoverLabels sample_schema (row_State row) = Inr (LabelValues s)"
    by (simp add: cre sample_flushedStore_simps sample_state_def)
  have res: "availableStates sample_flushedStore sample_created sample_schema sample_query
       = [(swl_State (sample_state ''s1'' ''abc''))
               \<lparr> state_Locks := [\<lparr> lock_State = ''s1'', lock_Transaction = 7,
                                    lock_Type = StateLockTypeCreate \<rparr>] \<rparr>,
             swl_State (sample_state ''d1'' ''zzzz'')]"
    by (simp add: availableStates_def durableAvailable_def overlayAvailable_def durableRow_def
        List.map_filter_def sample_flushedStore_simps sample_schema_simps cre locks
        isSpendLocked_def sample_state_def sample_query_def limitTo_def)
  from FindAvailableStates_result [OF pass sample_flushedStore_simps(1,2) srt lim ev ids same]
  show ?thesis
    using pass by (simp add: res sample_flushedStore_simps)
qed

lemma sample_spent_eq:
  "sample_spent =
     sample_created \<lparr> txLocks :=
       [\<lparr> lock_State = ''s1'', lock_Transaction = 7, lock_Type = StateLockTypeCreate \<rparr>,
        \<lparr> lock_State = ''s1'', lock_Transaction = 9, lock_Type = StateLockTypeSpend \<rparr>] \<rparr>"
  by (simp add: sample_spent_def sample_created_eq AddStateLocks_def checkResetInitUnFlushed_def)

text \<open>
  The claim as stated fails: "s1" is in the creating map and satisfies the query, and it
  is not returned, because a lock of the context spends it.
\<close>

theorem FindAvailableStates_spend_locked_counterexample:
  "map_of (creatingStates sample_spent) ''s1'' = Some (sample_state ''s1'' ''abc'')
   \<and> q_EvalQuery sample_query (LabelValues (sample_state ''s1'' ''abc'')) = Inr True
   \<and> FindAvailableStates sample_stateStore sample_spent ''coin'' sample_query
       = (Inr (sample_schema, []), sample_spent)"
  by (simp add: sample_spent_eq sample_created_eq FindAvailableStates_def getUnFlushedStates_def
      checkResetInitUnFlushed_def findStates_def mergeUnFlushedApplyLocks_def applyLocks_def
      isSpendLocked_def sample_schema_simps sample_state_def sample_query_def limitTo_def
      sample_stateStore_def List.map_filter_def theUnFlushed_def)

section \<open>Transaction manager: new transactions and idempotency keys (package txmgr)\<close>

text \<open>
  A submission resolves and validates each transaction, inserts the batch into the table
  \<^verbatim>\<open>transactions\<close> inside a database transaction, and on an insert error registers a hook
  that runs after the rollback and looks the idempotency keys up.

  Of a transaction the model keeps the fields the submission path reads or writes: the
  idempotency key (the empty string when none is given), type, domain, sender, target,
  data and dependencies. The ABI, the function and the bytecode are looked at by
  \<^verbatim>\<open>resolveFunction\<close>, \<^verbatim>\<open>parseInputs\<close> and \<^verbatim>\<open>getPublicTxData\<close> only, which appear here as one
  collaborator of the transaction manager.
\<close>

datatype TransactionType = TransactionTypePrivate | TransactionTypePublic | TransactionTypeOther

datatype SubmitMode = SubmitModeAuto | SubmitModeExternal | SubmitModeCall | SubmitModePrepare

datatype tx_error =
    MsgTxMgrIdempotencyKeyClash string
  | MsgTxMgrPrivateOnlyForPrepare
  | MsgTxMgrInvalidTXType
  | MsgTxMgrDomainMismatch string string
  | MsgTxMgrDomainMissingForDeploy
  | MsgTxMgrPublicSenderNotValidLocal string
  | UniqueConstraint
  | OtherError string

record TransactionInput =
  tx_IdempotencyKey :: string
  tx_Type :: TransactionType
  tx_Domain :: string
  tx_From :: string
  tx_To :: "string option"
  tx_Data :: string
  tx_DependsOn :: "UUID list"

record ValidatedTransaction =
  vtx_ID :: UUID
  vtx_SubmitMode :: SubmitMode
  vtx_Transaction :: TransactionInput
  vtx_LocalFrom :: string
  vtx_PublicTxData :: string

record persistedTransaction =
  ptx_ID :: UUID
  ptx_IdempotencyKey :: "string option"
  ptx_SubmitMode :: SubmitMode
  ptx_Type :: TransactionType
  ptx_Domain :: "string option"
  ptx_From :: string
  ptx_To :: "string option"
  ptx_Data :: string

record transactionDep =
  dep_Transaction :: UUID
  dep_DependsOn :: UUID

record txDatabase =
  transactions :: "persistedTransaction list"
  transaction_deps :: "transactionDep list"

text \<open>
  Modelled from the spec: the table \<^verbatim>\<open>transactions\<close> has the id as its primary key and a
  unique idempotency key, where one is given; its definition is not among the sources.
  An insert of rows fails on the first row that breaks one of the two, unless it runs
  with "do nothing on conflict", which leaves such a row out. The result counts the rows
  inserted.
\<close>

definition conflicts :: "persistedTransaction list \<Rightarrow> persistedTransaction \<Rightarrow> bool" where
  "conflicts rows p =
     (\<exists>r \<in> set rows. ptx_ID r = ptx_ID p
          \<or> (ptx_IdempotencyKey p \<noteq> None \<and> ptx_IdempotencyKey r = ptx_IdempotencyKey p))"

fun Create ::
  "bool \<Rightarrow> persistedTransaction list \<Rightarrow> persistedTransaction list
     \<Rightarrow> tx_error + (persistedTransaction list \<times> int)"
where
  "Create ignoreConflicts rows [] = Inr (rows, 0)"
| "Create ignoreConflicts rows (p # ps) =
     (if conflicts rows p
      then (if ignoreConflicts then Create ignoreConflicts rows ps else Inl UniqueConstraint)
      else case Create ignoreConflicts (rows @ [p]) ps of
             Inl err \<Rightarrow> Inl err
           | Inr (rows', n) \<Rightarrow> Inr (rows', n + 1))"

text \<open>
  A database transaction in progress (\<^verbatim>\<open>persistence.DBTX\<close>): the database as the
  transaction sees it, and the hooks registered with \<^verbatim>\<open>AddPostRollback\<close>. A hook gets the
  database as it is after the rollback and the error that caused it, and gives the error
  to return. The hooks of \<^verbatim>\<open>AddPostCommit\<close>, which fill caches, are left out.
\<close>

record DBTX =
  dbtx_DB :: txDatabase
  dbtx_postRollback :: "(txDatabase \<Rightarrow> tx_error \<Rightarrow> tx_error) list"

text \<open>
  Modelled from the spec: \<^verbatim>\<open>persistence.Transaction\<close> is missing. It runs the function in a
  new database transaction; when the function returns an error the writes are rolled
  back and the post-rollback hooks run, in the order they were added, each on the error
  the one before returned; otherwise the writes are committed.
\<close>

definition Transaction ::
  "txDatabase \<Rightarrow> (DBTX \<Rightarrow> (tx_error + 'a) \<times> DBTX) \<Rightarrow> (tx_error + 'a) \<times> txDatabase"
where
  "Transaction db fn =
     (case fn \<lparr> dbtx_DB = db, dbtx_postRollback = [] \<rparr> of
        (Inl err, dbTX) \<Rightarrow> (Inl (fold (\<lambda>hook e. hook db e) (dbtx_postRollback dbTX) err), db)
      | (Inr r, dbTX) \<Rightarrow> (Inr r, dbtx_DB dbTX))"

text \<open>
  The transaction manager, as far as a submission uses it: the name of the local node,
  its collaborators (domain manager, ABI handling, identity locator, public and private
  transaction managers), and the errors of a database that is failing: on the insert
  for a cause other than a constraint, and on the query that looks the keys up.
\<close>

record txManager =
  localNodeName :: string
  GetSmartContractByAddress :: "string \<Rightarrow> tx_error + string"
  resolveAndParse :: "TransactionInput \<Rightarrow> tx_error + (string \<times> string)"
  ValidateLocator :: "string \<Rightarrow> tx_error + (string \<times> string)"
  validatePublicTx :: "ValidatedTransaction \<Rightarrow> tx_error option"
  WriteNewTransactions :: "ValidatedTransaction list \<Rightarrow> tx_error option"
  HandleNewTx :: "ValidatedTransaction \<Rightarrow> tx_error option"
  insertFailure :: "tx_error option"
  lookupFailure :: "tx_error option"

text \<open>\<^verbatim>\<open>uuid.UUID.String()\<close>: 32 hexadecimal digits in groups of 8, 4, 4, 4 and 12.\<close>

fun hexOf :: "nat \<Rightarrow> nat \<Rightarrow> string" where
  "hexOf 0 n = []"
| "hexOf (Suc d) n = hexOf d (n div 16) @ [''0123456789abcdef'' ! (n mod 16)]"

definition UUID_String :: "UUID \<Rightarrow> string" where
  "UUID_String u =
     (let h = hexOf 32 (unat u)
      in take 8 h @ ''-'' @ take 4 (drop 8 h) @ ''-'' @ take 4 (drop 12 h) @ ''-''
           @ take 4 (drop 16 h) @ ''-'' @ drop 20 h)"

fun Join :: "string list \<Rightarrow> string \<Rightarrow> string" where
  "Join [] sep = []"
| "Join [s] sep = s"
| "Join (s # t # rest) sep = s @ sep @ Join (t # rest) sep"

definition notEmptyOrNull :: "string \<Rightarrow> string option" where
  "notEmptyOrNull s = (if s = [] then None else Some s)"

subsection \<open>Resolving a new transaction\<close>

definition resolvePrivateDomain :: "txManager \<Rightarrow> TransactionInput \<Rightarrow> tx_error + TransactionInput" where
  "resolvePrivateDomain tm tx =
     (case tx_To tx of
        Some to \<Rightarrow>
          (case GetSmartContractByAddress tm to of
             Inl err \<Rightarrow> Inl err
           | Inr domain \<Rightarrow>
               if tx_Domain tx = [] then Inr (tx \<lparr> tx_Domain := domain \<rparr>)
               else if tx_Domain tx \<noteq> domain then Inl (MsgTxMgrDomainMismatch (tx_Domain tx) domain)
               else Inr tx)
      | None \<Rightarrow> if tx_Domain tx = [] then Inl MsgTxMgrDomainMissingForDeploy else Inr tx)"

text \<open>
  \<^verbatim>\<open>resolveNewTransaction\<close> draws the id of the transaction with \<^verbatim>\<open>uuid.New()\<close>; the model
  is given the id drawn. The collaborator \<open>resolveAndParse\<close> gives the data of the public
  transaction and the normalized JSON of the inputs.
\<close>

definition resolveNewTransaction ::
  "txManager \<Rightarrow> TransactionInput \<Rightarrow> SubmitMode \<Rightarrow> UUID \<Rightarrow> tx_error + ValidatedTransaction"
where
  "resolveNewTransaction tm tx submitMode txID =
     (case (case tx_Type tx of
              TransactionTypePrivate \<Rightarrow> resolvePrivateDomain tm tx
            | TransactionTypePublic \<Rightarrow>
                if submitMode = SubmitModeExternal then Inl MsgTxMgrPrivateOnlyForPrepare else Inr tx
            | TransactionTypeOther \<Rightarrow> Inl MsgTxMgrInvalidTXType) of
        Inl err \<Rightarrow> Inl err
      | Inr tx1 \<Rightarrow>
          (case resolveAndParse tm tx1 of
             Inl err \<Rightarrow> Inl err
           | Inr (publicTxData, normalizedJSON) \<Rightarrow>
               (let tx2 = tx1 \<lparr> tx_Data := normalizedJSON \<rparr>;
                    bypassFromCheck = (submitMode = SubmitModePrepare
                                        \<or> (submitMode = SubmitModeCall \<and> tx_From tx2 = []))
                in if \<not> bypassFromCheck
                   then (case ValidateLocator tm (tx_From tx2) of
                           Inl err \<Rightarrow> Inl (MsgTxMgrPublicSenderNotValidLocal (tx_From tx2))
                         | Inr (identifier, node) \<Rightarrow>
                             if node \<noteq> localNodeName tm
                             then Inl (MsgTxMgrPublicSenderNotValidLocal (tx_From tx2))
                             else Inr \<lparr> vtx_ID = txID, vtx_SubmitMode = submitMode,
                                        vtx_Transaction = tx2 \<lparr> tx_From := identifier @ ''@'' @ node \<rparr>,
                                        vtx_LocalFrom = identifier, vtx_PublicTxData = publicTxData \<rparr>)
                   else Inr \<lparr> vtx_ID = txID, vtx_SubmitMode = submitMode, vtx_Transaction = tx2,
                              vtx_LocalFrom = [], vtx_PublicTxData = publicTxData \<rparr>)))"

subsection \<open>Inserting and checking the idempotency keys\<close>

definition toPersisted :: "ValidatedTransaction \<Rightarrow> persistedTransaction" where
  "toPersisted txi =
     \<lparr> ptx_ID = vtx_ID txi,
       ptx_IdempotencyKey = notEmptyOrNull (tx_IdempotencyKey (vtx_Transaction txi)),
       ptx_SubmitMode = vtx_SubmitMode txi,
       ptx_Type = tx_Type (vtx_Transaction txi),
       ptx_Domain = notEmptyOrNull (tx_Domain (vtx_Transaction txi)),
       ptx_From = tx_From (vtx_Transaction txi),
       ptx_To = tx_To (vtx_Transaction txi),
       ptx_Data = tx_Data (vtx_Transaction txi) \<rparr>"

definition insertTransactions ::
  "txManager \<Rightarrow> DBTX \<Rightarrow> ValidatedTransaction list \<Rightarrow> bool \<Rightarrow> (tx_error + int) \<times> DBTX"
where
  "insertTransactions tm dbTX txis ignoreConflicts =
     (let ptxs = map toPersisted txis;
          transactionDeps = concat (map (\<lambda>txi.
              map (\<lambda>d. \<lparr> dep_Transaction = vtx_ID txi, dep_DependsOn = d \<rparr>)
                (tx_DependsOn (vtx_Transaction txi))) txis)
      in case insertFailure tm of
           Some err \<Rightarrow> (Inl err, dbTX)
         | None \<Rightarrow>
             (case Create ignoreConflicts (transactions (dbtx_DB dbTX)) ptxs of
                Inl err \<Rightarrow> (Inl err, dbTX)
              | Inr (rows, rowsAffected) \<Rightarrow>
                  (Inr rowsAffected,
                   dbTX \<lparr> dbtx_DB := (dbtx_DB dbTX)
                     \<lparr> transactions := rows,
                       transaction_deps := transaction_deps (dbtx_DB dbTX)
                         @ filter (\<lambda>d. d \<notin> set (transaction_deps (dbtx_DB dbTX)))
                             (remdups transactionDeps) \<rparr> \<rparr>)))"

text \<open>
  Modelled from the spec: \<^verbatim>\<open>QueryTransactions\<close> is missing. Here it is asked for the
  transactions whose idempotency key is one of the given keys, at most as many as the
  limit, outside any database transaction.
\<close>

definition QueryTransactions ::
  "txManager \<Rightarrow> txDatabase \<Rightarrow> string list \<Rightarrow> nat \<Rightarrow> tx_error + persistedTransaction list"
where
  "QueryTransactions tm db keys limit =
     (case lookupFailure tm of
        Some lookupErr \<Rightarrow> Inl lookupErr
      | None \<Rightarrow>
          Inr (take limit (filter (\<lambda>r. \<exists>k \<in> set keys. ptx_IdempotencyKey r = Some k)
                             (transactions db))))"

definition checkIdempotencyKeys ::
  "txManager \<Rightarrow> txDatabase \<Rightarrow> tx_error \<Rightarrow> TransactionInput list \<Rightarrow> tx_error"
where
  "checkIdempotencyKeys tm db origErr txis =
     (let idempotencyKeys = filter (\<lambda>k. k \<noteq> []) (map tx_IdempotencyKey txis)
      in if 0 < length idempotencyKeys
         then (case QueryTransactions tm db idempotencyKeys (length idempotencyKeys) of
                 Inl lookupErr \<Rightarrow> origErr
               | Inr existingTxs \<Rightarrow>
                   if 0 < length existingTxs
                   then MsgTxMgrIdempotencyKeyClash
                          (Join (map (\<lambda>tx. the (ptx_IdempotencyKey tx) @ ''='' @ UUID_String (ptx_ID tx))
                                   existingTxs) '','')
                   else origErr)
         else origErr)"

text \<open>
  The first loop of \<^verbatim>\<open>processNewTransactions\<close>: each transaction is resolved under the
  id drawn for it (\<open>newID i\<close> for the transaction at position \<open>i\<close>); the first error ends
  the submission.
\<close>

fun resolveAll ::
  "txManager \<Rightarrow> TransactionInput list \<Rightarrow> SubmitMode \<Rightarrow> (nat \<Rightarrow> UUID) \<Rightarrow> nat
     \<Rightarrow> tx_error + ValidatedTransaction list"
where
  "resolveAll tm [] submitMode newID i = Inr []"
| "resolveAll tm (tx # txs) submitMode newID i =
     (case resolveNewTransaction tm tx submitMode (newID i) of
        Inl err \<Rightarrow> Inl err
      | Inr txi \<Rightarrow>
          (case resolveAll tm txs submitMode newID (Suc i) of
             Inl err \<Rightarrow> Inl err
           | Inr txis \<Rightarrow> Inr (txi # txis)))"

fun firstError :: "('a \<Rightarrow> tx_error option) \<Rightarrow> 'a list \<Rightarrow> tx_error option" where
  "firstError f [] = None"
| "firstError f (x # xs) = (case f x of Some err \<Rightarrow> Some err | None \<Rightarrow> firstError f xs)"

definition processNewTransactions ::
  "txManager \<Rightarrow> DBTX \<Rightarrow> TransactionInput list \<Rightarrow> SubmitMode \<Rightarrow> (nat \<Rightarrow> UUID)
     \<Rightarrow> (tx_error + UUID list) \<times> DBTX"
where
  "processNewTransactions tm dbTX txs submitMode newID =
     (case resolveAll tm txs submitMode newID 0 of
        Inl err \<Rightarrow> (Inl err, dbTX)
      | Inr txis \<Rightarrow>
          (let publicTxs = filter (\<lambda>txi. tx_Type (vtx_Transaction txi) = TransactionTypePublic) txis
           in case firstError (validatePublicTx tm) publicTxs of
                Some err \<Rightarrow> (Inl err, dbTX)
              | None \<Rightarrow>
                  (case insertTransactions tm dbTX txis False of
                     (Inl err, dbTX1) \<Rightarrow>
                       (Inl err,
                        dbTX1 \<lparr> dbtx_postRollback := dbtx_postRollback dbTX1
                                  @ [\<lambda>db err. checkIdempotencyKeys tm db err txs] \<rparr>)
                   | (Inr rowsAffected, dbTX1) \<Rightarrow>
                       (case (if 0 < length publicTxs then WriteNewTransactions tm publicTxs else None) of
                          Some err \<Rightarrow> (Inl err, dbTX1)
                        | None \<Rightarrow>
                            (case firstError (HandleNewTx tm)
                                    (filter (\<lambda>txi. tx_Type (vtx_Transaction txi) = TransactionTypePrivate)
                                       txis) of
                               Some err \<Rightarrow> (Inl err, dbTX1)
                             | None \<Rightarrow> (Inr (map vtx_ID txis), dbTX1))))))"

definition SendTransactions ::
  "txManager \<Rightarrow> DBTX \<Rightarrow> TransactionInput list \<Rightarrow> (nat \<Rightarrow> UUID) \<Rightarrow> (tx_error + UUID list) \<times> DBTX"
where
  "SendTransactions tm dbTX txs newID = processNewTransactions tm dbTX txs SubmitModeAuto newID"

definition sendTransactionsNewDBTX ::
  "txManager \<Rightarrow> txDatabase \<Rightarrow> TransactionInput list \<Rightarrow> (nat \<Rightarrow> UUID)
     \<Rightarrow> (tx_error + UUID list) \<times> txDatabase"
where
  "sendTransactionsNewDBTX tm db txs newID =
     Transaction db (\<lambda>dbTX. SendTransactions tm dbTX txs newID)"


text \<open>
  The idempotency keys a submission carries, and the rows of the table that hold one of
  them: what \<^verbatim>\<open>checkIdempotencyKeys\<close> asks the database for.
\<close>

definition submittedKeys :: "TransactionInput list \<Rightarrow> string list" where
  "submittedKeys txs = filter (\<lambda>k. k \<noteq> []) (map tx_IdempotencyKey txs)"

definition rowsWithKeys :: "txDatabase \<Rightarrow> string list \<Rightarrow> persistedTransaction list" where
  "rowsWithKeys db keys =
     filter (\<lambda>r. \<exists>k \<in> set keys. ptx_IdempotencyKey r = Some k) (transactions db)"

definition clashInfo :: "persistedTransaction list \<Rightarrow> string" where
  "clashInfo existingTxs =
     Join (map (\<lambda>tx. the (ptx_IdempotencyKey tx) @ ''='' @ UUID_String (ptx_ID tx)) existingTxs) '',''"

subsection \<open>Properties of the submission\<close>

lemma resolveNewTransaction_key:
  assumes "resolveNewTransaction tm tx submitMode txID = Inr txi"
  shows "tx_IdempotencyKey (vtx_Transaction txi) = tx_IdempotencyKey tx" and "vtx_ID txi = txID"
  using assms
  by (auto simp add: resolveNewTransaction_def resolvePrivateDomain_def Let_def
      split: TransactionType.splits sum.splits option.splits if_splits prod.splits)

lemma resolveAll_keys:
  "resolveAll tm txs submitMode newID i = Inr txis
   \<Longrightarrow> map (\<lambda>txi. tx_IdempotencyKey (vtx_Transaction txi)) txis = map tx_IdempotencyKey txs"
proof (induction txs arbitrary: txis i)
  case Nil
  then show ?case by simp
next
  case (Cons tx txs)
  from Cons.prems obtain txi rest where a: "resolveNewTransaction tm tx submitMode (newID i) = Inr txi"
    and b: "resolveAll tm txs submitMode newID (Suc i) = Inr rest" and c: "txis = txi # rest"
    by (auto split: sum.splits)
  show ?case
    using resolveNewTransaction_key(1) [OF a] Cons.IH [OF b] by (simp add: c)
qed

lemma conflicts_append: "conflicts rows p \<Longrightarrow> conflicts (rows @ qs) p"
  by (auto simp add: conflicts_def)

lemma Create_conflict:
  "\<exists>p \<in> set ps. conflicts rows p \<Longrightarrow> \<exists>err. Create False rows ps = Inl err"
proof (induction ps arbitrary: rows)
  case Nil
  then show ?case by simp
next
  case (Cons q ps)
  show ?case
  proof (cases "conflicts rows q")
    case True
    then show ?thesis by simp
  next
    case False
    with Cons.prems have "\<exists>p \<in> set ps. conflicts (rows @ [q]) p"
      by (auto intro: conflicts_append)
    from Cons.IH [OF this] False show ?thesis
      by auto
  qed
qed

lemma Create_error:
  "Create ignoreConflicts rows ps = Inl err \<Longrightarrow> err = UniqueConstraint"
proof (induction ps arbitrary: rows)
  case Nil
  then show ?case by simp
next
  case (Cons q ps)
  then show ?case
    by (auto split: if_splits sum.splits)
qed

lemma insertTransactions_collision:
  assumes "txi \<in> set txis" and "tx_IdempotencyKey (vtx_Transaction txi) \<noteq> []"
    and "r \<in> set (transactions (dbtx_DB dbTX))"
    and "ptx_IdempotencyKey r = Some (tx_IdempotencyKey (vtx_Transaction txi))"
  shows "\<exists>err. insertTransactions tm dbTX txis False = (Inl err, dbTX)
           \<and> (err = UniqueConstraint \<or> insertFailure tm = Some err)"
proof (cases "insertFailure tm")
  case (Some e)
  then show ?thesis by (simp add: insertTransactions_def)
next
  case None
  have "conflicts (transactions (dbtx_DB dbTX)) (toPersisted txi)"
    using assms(2-4) by (auto simp add: conflicts_def toPersisted_def notEmptyOrNull_def)
  with assms(1) have "\<exists>p \<in> set (map toPersisted txis). conflicts (transactions (dbtx_DB dbTX)) p"
    by auto
  from Create_conflict [OF this] obtain err where
    e: "Create False (transactions (dbtx_DB dbTX)) (map toPersisted txis) = Inl err"
    by blast
  have "err = UniqueConstraint"
    using e by (rule Create_error)
  with e None show ?thesis
    by (simp add: insertTransactions_def)
qed


lemma processNewTransactions_collision:
  assumes res: "resolveAll tm txs submitMode newID 0 = Inr txis"
    and val: "firstError (validatePublicTx tm)
                (filter (\<lambda>txi. tx_Type (vtx_Transaction txi) = TransactionTypePublic) txis) = None"
    and tx: "tx \<in> set txs" and key: "tx_IdempotencyKey tx \<noteq> []"
    and row: "r \<in> set (transactions (dbtx_DB dbTX))" "ptx_IdempotencyKey r = Some (tx_IdempotencyKey tx)"
  shows "\<exists>err. processNewTransactions tm dbTX txs submitMode newID =
           (Inl err, dbTX \<lparr> dbtx_postRollback := dbtx_postRollback dbTX
                                  @ [\<lambda>db err. checkIdempotencyKeys tm db err txs] \<rparr>)
           \<and> (err = UniqueConstraint \<or> insertFailure tm = Some err)"
proof -
  from tx have "tx_IdempotencyKey tx \<in> set (map tx_IdempotencyKey txs)"
    by simp
  then have "tx_IdempotencyKey tx \<in> set (map (\<lambda>txi. tx_IdempotencyKey (vtx_Transaction txi)) txis)"
    unfolding resolveAll_keys [OF res] .
  then obtain txi where txi: "txi \<in> set txis"
    and k: "tx_IdempotencyKey (vtx_Transaction txi) = tx_IdempotencyKey tx"
    by auto
  from insertTransactions_collision [OF txi, of r dbTX tm] key row k
  obtain err where i: "insertTransactions tm dbTX txis False = (Inl err, dbTX)"
    and e: "err = UniqueConstraint \<or> insertFailure tm = Some err"
    by auto
  show ?thesis
    using e by (simp add: processNewTransactions_def res val i Let_def)
qed

lemma sendTransactionsNewDBTX_collision:
  assumes res: "resolveAll tm txs SubmitModeAuto newID 0 = Inr txis"
    and val: "firstError (validatePublicTx tm)
                (filter (\<lambda>txi. tx_Type (vtx_Transaction txi) = TransactionTypePublic) txis) = None"
    and tx: "tx \<in> set txs" and key: "tx_IdempotencyKey tx \<noteq> []"
    and row: "r \<in> set (transactions db)" "ptx_IdempotencyKey r = Some (tx_IdempotencyKey tx)"
  shows "\<exists>err. sendTransactionsNewDBTX tm db txs newID = (Inl (checkIdempotencyKeys tm db err txs), db)
           \<and> (err = UniqueConstraint \<or> insertFailure tm = Some err)"
proof -
  let ?dbTX = "\<lparr> dbtx_DB = db, dbtx_postRollback = [] \<rparr>"
  from processNewTransactions_collision [OF res val tx key, of r ?dbTX] row
  obtain err where p: "processNewTransactions tm ?dbTX txs SubmitModeAuto newID =
           (Inl err, ?dbTX \<lparr> dbtx_postRollback := dbtx_postRollback ?dbTX
                                  @ [\<lambda>db err. checkIdempotencyKeys tm db err txs] \<rparr>)"
    and e: "err = UniqueConstraint \<or> insertFailure tm = Some err"
    by auto
  have "sendTransactionsNewDBTX tm db txs newID = (Inl (checkIdempotencyKeys tm db err txs), db)"
    by (simp add: sendTransactionsNewDBTX_def Transaction_def SendTransactions_def p)
  with e show ?thesis by blast
qed

lemma checkIdempotencyKeys_alt:
  "checkIdempotencyKeys tm db origErr txs =
     (if submittedKeys txs = [] \<or> lookupFailure tm \<noteq> None
         \<or> take (length (submittedKeys txs)) (rowsWithKeys db (submittedKeys txs)) = []
      then origErr
      else MsgTxMgrIdempotencyKeyClash
             (clashInfo (take (length (submittedKeys txs)) (rowsWithKeys db (submittedKeys txs)))))"
  by (auto simp add: checkIdempotencyKeys_def QueryTransactions_def submittedKeys_def
      rowsWithKeys_def clashInfo_def Let_def split: option.splits)

lemma rowsWithKeys_collision:
  assumes tx: "tx \<in> set txs" and key: "tx_IdempotencyKey tx \<noteq> []"
    and row: "r \<in> set (transactions db)" "ptx_IdempotencyKey r = Some (tx_IdempotencyKey tx)"
  shows "submittedKeys txs \<noteq> []" and "r \<in> set (rowsWithKeys db (submittedKeys txs))"
    and "take (length (submittedKeys txs)) (rowsWithKeys db (submittedKeys txs)) \<noteq> []"
proof -
  have k: "tx_IdempotencyKey tx \<in> set (submittedKeys txs)"
    using tx key by (auto simp add: submittedKeys_def)
  then show 1: "submittedKeys txs \<noteq> []"
    by auto
  show 2: "r \<in> set (rowsWithKeys db (submittedKeys txs))"
    using row k by (auto simp add: rowsWithKeys_def)
  from 1 2 show "take (length (submittedKeys txs)) (rowsWithKeys db (submittedKeys txs)) \<noteq> []"
    by (cases "submittedKeys txs"; cases "rowsWithKeys db (submittedKeys txs)") auto
qed

lemma rowsWithKeys_within_limit:
  assumes "distinct (map ptx_IdempotencyKey (rowsWithKeys db keys))"
  shows "take (length keys) (rowsWithKeys db keys) = rowsWithKeys db keys"
proof -
  have "set (map ptx_IdempotencyKey (rowsWithKeys db keys)) \<subseteq> Some ` set keys"
    by (auto simp add: rowsWithKeys_def)
  then have "card (set (map ptx_IdempotencyKey (rowsWithKeys db keys))) \<le> card (Some ` set keys)"
    by (intro card_mono) simp_all
  also have "\<dots> \<le> length keys"
    by (metis card_image_le List.finite_set card_length le_trans)
  finally have "length (rowsWithKeys db keys) \<le> length keys"
    using distinct_card [OF assms] by simp
  then show ?thesis by simp
qed

lemma sendTransactionsNewDBTX_invalid:
  "resolveAll tm txs SubmitModeAuto newID 0 = Inl err
   \<Longrightarrow> sendTransactionsNewDBTX tm db txs newID = (Inl err, db)"
  "resolveAll tm txs SubmitModeAuto newID 0 = Inr txis
   \<Longrightarrow> firstError (validatePublicTx tm)
         (filter (\<lambda>txi. tx_Type (vtx_Transaction txi) = TransactionTypePublic) txis) = Some err
   \<Longrightarrow> sendTransactionsNewDBTX tm db txs newID = (Inl err, db)"
  by (simp_all add: sendTransactionsNewDBTX_def Transaction_def SendTransactions_def
      processNewTransactions_def Let_def)

lemma clashInfo_single:
  assumes row: "r \<in> set (transactions db)" "ptx_IdempotencyKey r = Some k"
    and uniq: "\<forall>r' \<in> set (transactions db).
                 ptx_IdempotencyKey r' = ptx_IdempotencyKey r \<longrightarrow> ptx_ID r' = ptx_ID r"
  shows "clashInfo (take (length [k]) (rowsWithKeys db [k])) = k @ ''='' @ UUID_String (ptx_ID r)"
proof -
  define F where "F = rowsWithKeys db [k]"
  have "r \<in> set F"
    using row by (simp add: F_def rowsWithKeys_def)
  then obtain r0 rest where F: "F = r0 # rest"
    by (cases F) simp_all
  have "r0 \<in> set F"
    unfolding F by simp
  then have r0: "r0 \<in> set (transactions db)" "ptx_IdempotencyKey r0 = Some k"
    unfolding F_def rowsWithKeys_def by simp_all
  from uniq r0(1) have "ptx_IdempotencyKey r0 = ptx_IdempotencyKey r \<longrightarrow> ptx_ID r0 = ptx_ID r"
    by (rule bspec)
  then have i: "ptx_ID r0 = ptx_ID r"
    unfolding r0(2) row(2) by simp
  have "take (length [k]) F = [r0]"
    unfolding F by simp
  then have "clashInfo (take (length [k]) F) = k @ ''='' @ UUID_String (ptx_ID r)"
    by (simp add: clashInfo_def r0(2) i)
  then show ?thesis
    unfolding F_def .
qed

text \<open>
  Claim C3, as the code has it. Let a submitted transaction carry an idempotency key that
  a row of the table holds. A submission in a database transaction of its own then
  creates no transaction: the database is left as it was. When a transaction of the
  submission does not resolve, or a public one is not valid, that error is returned:
  both are looked at before the insert. Otherwise the insert fails, the transaction is
  rolled back, and the check after the rollback returns the idempotency key clash, its
  text listing "key=id" for the rows that hold a key of the submission, up to as many
  rows as keys were submitted; when the keys in the table are unique these are all such
  rows, and for a submission of one transaction the text is the key and the id of the
  row that holds it, whatever id had been drawn for the new transaction. When the query
  of the check fails, the error of the insert is returned instead.
\<close>

theorem idempotency_key_collision:
  assumes tx: "tx \<in> set txs" and key: "tx_IdempotencyKey tx \<noteq> []"
    and row: "r \<in> set (transactions db)" "ptx_IdempotencyKey r = Some (tx_IdempotencyKey tx)"
  shows
    "(\<forall>err. resolveAll tm txs SubmitModeAuto newID 0 = Inl err \<longrightarrow>
         sendTransactionsNewDBTX tm db txs newID = (Inl err, db))
     \<and> (\<forall>txis. resolveAll tm txs SubmitModeAuto newID 0 = Inr txis \<longrightarrow>
          (\<forall>err. firstError (validatePublicTx tm)
                    (filter (\<lambda>txi. tx_Type (vtx_Transaction txi) = TransactionTypePublic) txis) = Some err \<longrightarrow>
             sendTransactionsNewDBTX tm db txs newID = (Inl err, db))
          \<and> (firstError (validatePublicTx tm)
                    (filter (\<lambda>txi. tx_Type (vtx_Transaction txi) = TransactionTypePublic) txis) = None \<longrightarrow>
               (lookupFailure tm = None \<longrightarrow>
                  sendTransactionsNewDBTX tm db txs newID
                    = (Inl (MsgTxMgrIdempotencyKeyClash
                         (clashInfo (take (length (submittedKeys txs))
                                       (rowsWithKeys db (submittedKeys txs))))), db)
                  \<and> take (length (submittedKeys txs)) (rowsWithKeys db (submittedKeys txs)) \<noteq> []
                  \<and> (distinct (map ptx_IdempotencyKey (rowsWithKeys db (submittedKeys txs))) \<longrightarrow>
                        take (length (submittedKeys txs)) (rowsWithKeys db (submittedKeys txs))
                          = rowsWithKeys db (submittedKeys txs))
                  \<and> (txs = [tx]
                       \<and> (\<forall>r' \<in> set (transactions db).
                             ptx_IdempotencyKey r' = ptx_IdempotencyKey r \<longrightarrow> ptx_ID r' = ptx_ID r) \<longrightarrow>
                        sendTransactionsNewDBTX tm db txs newID
                          = (Inl (MsgTxMgrIdempotencyKeyClash
                               (tx_IdempotencyKey tx @ ''='' @ UUID_String (ptx_ID r))), db)))
               \<and> (lookupFailure tm \<noteq> None \<longrightarrow>
                    (\<exists>err. sendTransactionsNewDBTX tm db txs newID = (Inl err, db)
                        \<and> (err = UniqueConstraint \<or> insertFailure tm = Some err)))))"
proof (intro conjI allI impI)
  fix err
  assume "resolveAll tm txs SubmitModeAuto newID 0 = Inl err"
  then show "sendTransactionsNewDBTX tm db txs newID = (Inl err, db)"
    by (rule sendTransactionsNewDBTX_invalid)
next
  fix txis err
  assume "resolveAll tm txs SubmitModeAuto newID 0 = Inr txis"
    and "firstError (validatePublicTx tm)
           (filter (\<lambda>txi. tx_Type (vtx_Transaction txi) = TransactionTypePublic) txis) = Some err"
  then show "sendTransactionsNewDBTX tm db txs newID = (Inl err, db)"
    by (rule sendTransactionsNewDBTX_invalid)
next
  fix txis
  assume res: "resolveAll tm txs SubmitModeAuto newID 0 = Inr txis"
    and val: "firstError (validatePublicTx tm)
           (filter (\<lambda>txi. tx_Type (vtx_Transaction txi) = TransactionTypePublic) txis) = None"
  from sendTransactionsNewDBTX_collision [OF res val tx key row]
  obtain e0 where s: "sendTransactionsNewDBTX tm db txs newID = (Inl (checkIdempotencyKeys tm db e0 txs), db)"
    and e0: "e0 = UniqueConstraint \<or> insertFailure tm = Some e0"
    by blast
  note c = rowsWithKeys_collision [OF tx key row]
  {
    assume l: "lookupFailure tm = None"
    show clash: "sendTransactionsNewDBTX tm db txs newID
        = (Inl (MsgTxMgrIdempotencyKeyClash
             (clashInfo (take (length (submittedKeys txs)) (rowsWithKeys db (submittedKeys txs))))), db)"
      unfolding s checkIdempotencyKeys_alt using c l by simp
    show "take (length (submittedKeys txs)) (rowsWithKeys db (submittedKeys txs)) \<noteq> []"
      by (rule c(3))
    {
      assume "distinct (map ptx_IdempotencyKey (rowsWithKeys db (submittedKeys txs)))"
      then show "take (length (submittedKeys txs)) (rowsWithKeys db (submittedKeys txs))
          = rowsWithKeys db (submittedKeys txs)"
        by (rule rowsWithKeys_within_limit)
    }
    {
      assume a: "txs = [tx]
          \<and> (\<forall>r' \<in> set (transactions db).
                ptx_IdempotencyKey r' = ptx_IdempotencyKey r \<longrightarrow> ptx_ID r' = ptx_ID r)"
      then have k: "submittedKeys txs = [tx_IdempotencyKey tx]"
        using key by (simp add: submittedKeys_def)
      from a have u: "\<forall>r' \<in> set (transactions db).
                ptx_IdempotencyKey r' = ptx_IdempotencyKey r \<longrightarrow> ptx_ID r' = ptx_ID r"
        by blast
      show "sendTransactionsNewDBTX tm db txs newID
          = (Inl (MsgTxMgrIdempotencyKeyClash
               (tx_IdempotencyKey tx @ ''='' @ UUID_String (ptx_ID r))), db)"
        unfolding clash k clashInfo_single [OF row u] ..
    }
  }
  {
    assume "lookupFailure tm \<noteq> None"
    then have "checkIdempotencyKeys tm db e0 txs = e0"
      by (simp add: checkIdempotencyKeys_alt)
    with s e0 show "\<exists>err. sendTransactionsNewDBTX tm db txs newID = (Inl err, db)
        \<and> (err = UniqueConstraint \<or> insertFailure tm = Some err)"
      by auto
  }
qed

text \<open>
  A transaction manager whose collaborators accept everything, a table that holds the
  transaction 5 under the key "k1", and a private transaction submitted under that key.
\<close>

definition sample_txManager :: txManager where
  "sample_txManager =
     \<lparr> localNodeName = ''node1'',
       GetSmartContractByAddress = (\<lambda>to. Inr ''zeto''),
       resolveAndParse = (\<lambda>tx. Inr ([], tx_Data tx)),
       ValidateLocator = (\<lambda>sender. Inr (sender, ''node1'')),
       validatePublicTx = (\<lambda>txi. None),
       WriteNewTransactions = (\<lambda>txis. None),
       HandleNewTx = (\<lambda>txi. None),
       insertFailure = None,
       lookupFailure = None \<rparr>"

definition sample_txDatabase :: txDatabase where
  "sample_txDatabase =
     \<lparr> transactions =
         [\<lparr> ptx_ID = 5, ptx_IdempotencyKey = Some ''k1'', ptx_SubmitMode = SubmitModeAuto,
            ptx_Type = TransactionTypePrivate, ptx_Domain = Some ''zeto'', ptx_From = ''alice@node1'',
            ptx_To = Some ''0xaa'', ptx_Data = ''{}'' \<rparr>],
       transaction_deps = [] \<rparr>"

definition sample_tx :: TransactionInput where
  "sample_tx =
     \<lparr> tx_IdempotencyKey = ''k1'', tx_Type = TransactionTypePrivate, tx_Domain = ''zeto'',
       tx_From = ''alice'', tx_To = Some ''0xaa'', tx_Data = ''{}'', tx_DependsOn = [] \<rparr>"

theorem idempotency_key_collision_witness:
  "sample_tx \<in> set [sample_tx]
   \<and> tx_IdempotencyKey sample_tx \<noteq> []
   \<and> hd (transactions sample_txDatabase) \<in> set (transactions sample_txDatabase)
   \<and> ptx_IdempotencyKey (hd (transactions sample_txDatabase)) = Some (tx_IdempotencyKey sample_tx)
   \<and> sendTransactionsNewDBTX sample_txManager sample_txDatabase [sample_tx] (\<lambda>i. 9)
       = (Inl (MsgTxMgrIdempotencyKeyClash (''k1='' @ UUID_String 5)), sample_txDatabase)"
proof -
  let ?r = "hd (transactions sample_txDatabase)"
  have tx: "sample_tx \<in> set [sample_tx]" and key: "tx_IdempotencyKey sample_tx \<noteq> []"
    by (simp_all add: sample_tx_def)
  have row: "?r \<in> set (transactions sample_txDatabase)"
      "ptx_IdempotencyKey ?r = Some (tx_IdempotencyKey sample_tx)"
    by (simp_all add: sample_txDatabase_def sample_tx_def)
  have res: "\<exists>txis. resolveAll sample_txManager [sample_tx] SubmitModeAuto (\<lambda>i. 9) 0 = Inr txis
      \<and> firstError (validatePublicTx sample_txManager)
           (filter (\<lambda>txi. tx_Type (vtx_Transaction txi) = TransactionTypePublic) txis) = None"
    by (simp add: sample_txManager_def sample_tx_def resolveNewTransaction_def
        resolvePrivateDomain_def Let_def)
  have l: "lookupFailure sample_txManager = None"
    by (simp add: sample_txManager_def)
  have u: "\<forall>r' \<in> set (transactions sample_txDatabase).
      ptx_IdempotencyKey r' = ptx_IdempotencyKey ?r \<longrightarrow> ptx_ID r' = ptx_ID ?r"
    by (simp add: sample_txDatabase_def)
  from idempotency_key_collision [OF tx key row, of sample_txManager "\<lambda>i. 9"] res l u
  have "sendTransactionsNewDBTX sample_txManager sample_txDatabase [sample_tx] (\<lambda>i. 9)
       = (Inl (MsgTxMgrIdempotencyKeyClash (tx_IdempotencyKey sample_tx @ ''='' @ UUID_String (ptx_ID ?r))),
          sample_txDatabase)"
    by blast
  then have "sendTransactionsNewDBTX sample_txManager sample_txDatabase [sample_tx] (\<lambda>i. 9)
       = (Inl (MsgTxMgrIdempotencyKeyClash (''k1='' @ UUID_String 5)), sample_txDatabase)"
    by (simp add: sample_tx_def sample_txDatabase_def)
  with tx key row show ?thesis
    by blast
qed

text \<open>
  The claim as stated fails. A transaction of a type that cannot be submitted is turned
  down with that error though its key is held by a row, and no check runs after a
  rollback. And when the query of the check fails, the submission returns the error of
  the insert though the row that holds the key is in the table.
\<close>

theorem idempotency_key_other_errors_counterexample:
  "map ptx_IdempotencyKey (transactions sample_txDatabase) = [Some ''k1'']
   \<and> tx_IdempotencyKey (sample_tx \<lparr> tx_Type := TransactionTypeOther \<rparr>) = ''k1''
   \<and> sendTransactionsNewDBTX sample_txManager sample_txDatabase
        [sample_tx \<lparr> tx_Type := TransactionTypeOther \<rparr>] (\<lambda>i. 9)
       = (Inl MsgTxMgrInvalidTXType, sample_txDatabase)
   \<and> sendTransactionsNewDBTX (sample_txManager \<lparr> lookupFailure := Some (OtherError ''connection lost'') \<rparr>)
        sample_txDatabase [sample_tx] (\<lambda>i. 9)
       = (Inl UniqueConstraint, sample_txDatabase)"
  by (simp add: sample_txManager_def sample_txDatabase_def sample_tx_def sendTransactionsNewDBTX_def
      Transaction_def SendTransactions_def processNewTransactions_def resolveNewTransaction_def
      resolvePrivateDomain_def insertTransactions_def conflicts_def toPersisted_def
      notEmptyOrNull_def checkIdempotencyKeys_def QueryTransactions_def Let_def)

section \<open>Transport manager: the sender of a peer (package transportmgr)\<close>

text \<open>
  Each active peer has one sender routine. It scans the persisted reliable messages and
  sends those that are due, then waits: for the resend timer, for the signal that new
  reliable messages have been persisted, for the end of its context, or for a message
  on the queue of messages that are sent once and not persisted. Reliable messages are
  sent, and sent again, by the scan only.

  The model runs the routine against the list of what happens while it waits, in the
  order in which it happens. \<open>ResendIntervalPasses\<close> says that the interval
  \<^verbatim>\<open>reliableMessageResend\<close> has passed since the timer was made: a running timer then
  fires, a stopped one does not. The routine is blocked in its \<^verbatim>\<open>select\<close> when the list
  is used up.
\<close>

datatype 'm sender_event =
    ResendIntervalPasses
  | PersistedMsgsAvailable
  | SenderContextDone
  | SendQueue 'm

text \<open>What the routine does, in order: a scan (with its \<^verbatim>\<open>checkNew\<close>), or the send of a queued message.\<close>

datatype 'm sender_action = ScanAction bool | SendAction 'm

datatype sender_end = SenderReturned | SenderQuiescing | SenderWaiting

text \<open>
  The peer as the loop of \<^verbatim>\<open>sender\<close> deals with it. \<open>reliableMessageScan\<close> stands for the
  scan under \<^verbatim>\<open>reliableScanRetry\<close>, which is tried again until it succeeds and gives up
  only when the context is closed (\<open>None\<close>). \<open>inactive\<close> is the test made after a scan
  that followed the timer: no persisted messages left and nothing received for the
  inactivity timeout. \<open>send\<close> is \<^verbatim>\<open>peer.send\<close> for a queued message, whose error is logged
  and dropped.
\<close>

record ('p, 'm) senderPeer =
  reliableMessageScan :: "bool \<Rightarrow> 'p \<Rightarrow> 'p option"
  inactive :: "'p \<Rightarrow> bool"
  send :: "'m \<Rightarrow> 'p \<Rightarrow> 'p"

text \<open>
  The head of the outer loop: the scan, then the test for quiescing. It gives the end of
  the routine, or the peer with which the routine goes on to wait.
\<close>

definition scanAndCheck ::
  "('p, 'm) senderPeer \<Rightarrow> 'p \<Rightarrow> bool \<Rightarrow> bool \<Rightarrow> sender_end + 'p"
where
  "scanAndCheck sp p checkNew hitInactivityTimeout =
     (case reliableMessageScan sp checkNew p of
        None \<Rightarrow> Inl SenderReturned
      | Some p1 \<Rightarrow> if hitInactivityTimeout \<and> inactive sp p1 then Inl SenderQuiescing else Inr p1)"

text \<open>
  The inner loop, \<^verbatim>\<open>for processingMsgs\<close>, with the outer loop around it. \<open>stopped\<close> says
  that \<^verbatim>\<open>resendTimer.Stop()\<close> has been called on the timer of this wait; every turn of the
  outer loop makes a new timer. The branch for the send queue stops the timer and leaves
  \<^verbatim>\<open>processingMsgs\<close> as it is, so the inner loop goes on with the stopped timer.
\<close>

fun senderLoop ::
  "('p, 'm) senderPeer \<Rightarrow> 'p \<Rightarrow> bool \<Rightarrow> 'm sender_event list \<Rightarrow> 'm sender_action list
     \<Rightarrow> 'm sender_action list \<times> sender_end"
where
  "senderLoop sp p stopped [] acts = (acts, SenderWaiting)"
| "senderLoop sp p stopped (ResendIntervalPasses # events) acts =
     (if stopped then senderLoop sp p stopped events acts
      else case scanAndCheck sp p False True of
             Inl e \<Rightarrow> (acts @ [ScanAction False], e)
           | Inr p1 \<Rightarrow> senderLoop sp p1 False events (acts @ [ScanAction False]))"
| "senderLoop sp p stopped (PersistedMsgsAvailable # events) acts =
     (case scanAndCheck sp p True False of
        Inl e \<Rightarrow> (acts @ [ScanAction True], e)
      | Inr p1 \<Rightarrow> senderLoop sp p1 False events (acts @ [ScanAction True]))"
| "senderLoop sp p stopped (SenderContextDone # events) acts = (acts, SenderReturned)"
| "senderLoop sp p stopped (SendQueue msg # events) acts =
     senderLoop sp (send sp msg p) True events (acts @ [SendAction msg])"

definition sender ::
  "('p, 'm) senderPeer \<Rightarrow> 'p \<Rightarrow> 'm sender_event list \<Rightarrow> 'm sender_action list \<times> sender_end"
where
  "sender sp p events =
     (case scanAndCheck sp p False False of
        Inl e \<Rightarrow> ([ScanAction False], e)
      | Inr p1 \<Rightarrow> senderLoop sp p1 False events [ScanAction False])"

subsection \<open>The resend timer after a queued message\<close>

lemma senderLoop_stopped:
  "senderLoop sp p True (replicate n ResendIntervalPasses) acts = (acts, SenderWaiting)"
  by (induction n) simp_all

text \<open>
  Claim C2 against the code. Let the first scan succeed. When no queued message comes
  in, the routine scans again each time the resend interval has passed, as long as the
  peer is not inactive: this is how an unacknowledged message is sent again. But once
  one queued message has been sent, the resend interval can pass any number of times
  and the routine stays blocked without a further scan: the timer has been stopped and
  no new one made, so no reliable message is sent again until new reliable messages are
  signalled.
\<close>

theorem sender_stops_rescanning:
  assumes "reliableMessageScan sp False p = Some p1"
  shows "sender sp p (SendQueue msg # replicate n ResendIntervalPasses)
           = ([ScanAction False, SendAction msg], SenderWaiting)
       \<and> (\<forall>p2. reliableMessageScan sp False p1 = Some p2 \<and> \<not> inactive sp p2 \<longrightarrow>
             sender sp p [ResendIntervalPasses] = ([ScanAction False, ScanAction False], SenderWaiting))"
  using assms by (simp add: sender_def scanAndCheck_def senderLoop_stopped)

text \<open>A peer that counts its scans and is never inactive.\<close>

definition sample_senderPeer :: "(nat, string) senderPeer" where
  "sample_senderPeer =
     \<lparr> reliableMessageScan = (\<lambda>checkNew scans. Some (Suc scans)),
       inactive = (\<lambda>scans. False),
       send = (\<lambda>msg scans. scans) \<rparr>"

theorem sender_stops_rescanning_witness:
  "reliableMessageScan sample_senderPeer False 0 = Some 1
   \<and> sender sample_senderPeer 0 (SendQueue ''hello'' # replicate 1000 ResendIntervalPasses)
       = ([ScanAction False, SendAction ''hello''], SenderWaiting)
   \<and> sender sample_senderPeer 0 [ResendIntervalPasses]
       = ([ScanAction False, ScanAction False], SenderWaiting)"
proof -
  have s: "reliableMessageScan sample_senderPeer False 0 = Some 1"
    and t: "reliableMessageScan sample_senderPeer False 1 = Some 2 \<and> \<not> inactive sample_senderPeer 2"
    by (simp_all add: sample_senderPeer_def)
  from sender_stops_rescanning [OF s, where msg = "''hello''" and n = 1000] t
  show ?thesis
    using s by blast
qed

end
